theory Spec2Isabelle
  imports Main
begin

section \<open>The type graph\<close>

text \<open>
  The graph that \<^verbatim>\<open>pruneSchema\<close> (packages/utils/src/prune.ts) works on. A type is referred to
  by its name: in the source a field, an argument, an interface list or a union holds the
  type object itself, the schema keeps every such object in its type map under its name, and
  \<^verbatim>\<open>getNamedType\<close> strips the list and non-null wrappers. So a field records the name of its
  unwrapped type and the names of the unwrapped types of its arguments, in order.
\<close>

record field =
  fieldName :: string
  fieldType :: string
  fieldArgs :: "string list"

record inputField =
  inputFieldName :: string
  inputFieldType :: string

datatype namedType =
    GraphQLScalarType string
  | GraphQLObjectType string "field list" "string list"
  | GraphQLInterfaceType string "field list" "string list"
  | GraphQLUnionType string "string list"
  | GraphQLEnumType string
  | GraphQLInputObjectType string "inputField list"

record directive =
  directiveName :: string
  directiveArgs :: "string list"

text \<open>
  \<open>typeMap\<close> lists the values of \<^verbatim>\<open>schema.getTypeMap()\<close> in the order of its keys (the
  key of a type is its name), \<open>rootTypes\<close> is what \<^verbatim>\<open>getRootTypes(schema)\<close> returns, by name.
\<close>

record schema =
  typeMap :: "namedType list"
  directives :: "directive list"
  rootTypes :: "string list"

fun typeName :: "namedType \<Rightarrow> string" where
  "typeName (GraphQLScalarType n) = n"
| "typeName (GraphQLObjectType n fs is) = n"
| "typeName (GraphQLInterfaceType n fs is) = n"
| "typeName (GraphQLUnionType n ms) = n"
| "typeName (GraphQLEnumType n) = n"
| "typeName (GraphQLInputObjectType n fs) = n"

fun isObjectType :: "namedType \<Rightarrow> bool" where
  "isObjectType (GraphQLObjectType n fs is) = True"
| "isObjectType t = False"

fun isInterfaceType :: "namedType \<Rightarrow> bool" where
  "isInterfaceType (GraphQLInterfaceType n fs is) = True"
| "isInterfaceType t = False"

fun isUnionType :: "namedType \<Rightarrow> bool" where
  "isUnionType (GraphQLUnionType n ms) = True"
| "isUnionType t = False"

fun isInputObjectType :: "namedType \<Rightarrow> bool" where
  "isInputObjectType (GraphQLInputObjectType n fs) = True"
| "isInputObjectType t = False"

text \<open>\<^verbatim>\<open>type.getFields()\<close> of an object or interface type, in key order.\<close>

fun getFields :: "namedType \<Rightarrow> field list" where
  "getFields (GraphQLObjectType n fs is) = fs"
| "getFields (GraphQLInterfaceType n fs is) = fs"
| "getFields t = []"

text \<open>\<^verbatim>\<open>type.getFields()\<close> of an input object type.\<close>

fun getInputFields :: "namedType \<Rightarrow> inputField list" where
  "getInputFields (GraphQLInputObjectType n fs) = fs"
| "getInputFields t = []"

text \<open>\<^verbatim>\<open>Object.keys(type.getFields())\<close>, for the three kinds of type that have fields.\<close>

fun fieldKeys :: "namedType \<Rightarrow> string list" where
  "fieldKeys (GraphQLObjectType n fs is) = map fieldName fs"
| "fieldKeys (GraphQLInterfaceType n fs is) = map fieldName fs"
| "fieldKeys (GraphQLInputObjectType n fs) = map inputFieldName fs"
| "fieldKeys t = []"

text \<open>
  \<^verbatim>\<open>'getInterfaces' in type\<close> holds for object and interface types; \<open>None\<close> is a type
  without the method. (Where the library gives an interface type no such method, its list
  is empty here, and the loops over it do nothing either way.)
\<close>

fun getInterfaces :: "namedType \<Rightarrow> string list option" where
  "getInterfaces (GraphQLObjectType n fs is) = Some is"
| "getInterfaces (GraphQLInterfaceType n fs is) = Some is"
| "getInterfaces t = None"

text \<open>\<^verbatim>\<open>type.getTypes()\<close> of a union type.\<close>

fun getTypes :: "namedType \<Rightarrow> string list" where
  "getTypes (GraphQLUnionType n ms) = ms"
| "getTypes t = []"

text \<open>\<^verbatim>\<open>schema.getType(name)\<close>: the entry of the type map under that key, if any.\<close>

definition getType :: "schema \<Rightarrow> string \<Rightarrow> namedType option" where
  "getType s n = find (\<lambda>t. typeName t = n) (typeMap s)"

definition typeNames :: "schema \<Rightarrow> string set" where
  "typeNames s = set (map typeName (typeMap s))"

text \<open>\<^verbatim>\<open>name.startsWith(p)\<close>.\<close>

definition startsWith :: "string \<Rightarrow> string \<Rightarrow> bool" where
  "startsWith n p = (take (length p) n = p)"

section \<open>The pruning context and the implementation index\<close>

text \<open>
  \<open>unusedTypes\<close> is a \<^verbatim>\<open>Record<string, boolean>\<close>; \<open>implementations\<close> maps an interface
  name to the record of its implementers, kept here as the list of its keys in insertion
  order (every stored value is \<^verbatim>\<open>true\<close>).
\<close>

record pruningContext =
  schema :: schema
  unusedTypes :: "string \<rightharpoonup> bool"
  implementations :: "string \<rightharpoonup> string list"

definition getImplementations :: "pruningContext \<Rightarrow> namedType \<Rightarrow> string list option" where
  "getImplementations pruningContext t = implementations pruningContext (typeName t)"

text \<open>\<^verbatim>\<open>record[key] = true\<close> on a record whose keys are \<open>ks\<close>.\<close>

definition setKey :: "string \<Rightarrow> string list \<Rightarrow> string list" where
  "setKey k ks = (if k \<in> set ks then ks else ks @ [k])"

text \<open>
  One round of the inner loop of \<^verbatim>\<open>createPruningContext\<close>, for the interface named
  \<open>iface\<close> of the type named \<open>tn\<close>: create the entry when there is none, then add the type.
\<close>

definition addImplementation ::
  "string \<Rightarrow> string \<Rightarrow> (string \<rightharpoonup> string list) \<Rightarrow> (string \<rightharpoonup> string list)" where
  "addImplementation tn iface impls =
     (let impls1 = (if impls iface = None then impls(iface \<mapsto> []) else impls)
      in case impls1 iface of
           Some ks \<Rightarrow> impls1(iface \<mapsto> setKey tn ks)
         | None \<Rightarrow> impls1)"

text \<open>The body of the outer loop, for one key of the type map.\<close>

definition indexType ::
  "schema \<Rightarrow> string \<Rightarrow> (string \<rightharpoonup> string list) \<Rightarrow> (string \<rightharpoonup> string list)" where
  "indexType s tn impls =
     (case getType s tn of
        None \<Rightarrow> impls
      | Some t \<Rightarrow>
          (case getInterfaces t of
             None \<Rightarrow> impls
           | Some ifaces \<Rightarrow> fold (addImplementation (typeName t)) ifaces impls))"

definition createPruningContext :: "schema \<Rightarrow> pruningContext" where
  "createPruningContext s =
     \<lparr> schema = s,
       unusedTypes = Map.empty,
       implementations = fold (indexType s) (map typeName (typeMap s)) Map.empty \<rparr>"

section \<open>The reachability marker\<close>

text \<open>
  A call of one of the two visiting functions, with the name of the type it is called on.
\<close>

datatype call = VisitOutputType string | VisitInputType string

fun callName :: "call \<Rightarrow> string" where
  "callName (VisitOutputType n) = n"
| "callName (VisitInputType n) = n"

text \<open>
  The calls that the body of \<^verbatim>\<open>visitOutputType\<close> makes, in order, once the type is marked:
  for an object or interface, per field the field's type and then its arguments, then the
  implementers found in the index (interfaces only, when the entry exists), then the
  interfaces of the type; for a union, its members.
\<close>

definition outputCalls :: "pruningContext \<Rightarrow> namedType \<Rightarrow> call list" where
  "outputCalls pruningContext t =
     (if isObjectType t \<or> isInterfaceType t then
        concat (map (\<lambda>f. VisitOutputType (fieldType f) # map VisitInputType (fieldArgs f))
                    (getFields t))
        @ (if isInterfaceType t then
             (case getImplementations pruningContext t of
                Some impls \<Rightarrow> map VisitOutputType impls
              | None \<Rightarrow> [])
           else [])
        @ (case getInterfaces t of
             Some ifaces \<Rightarrow> map VisitOutputType ifaces
           | None \<Rightarrow> [])
      else if isUnionType t then map VisitOutputType (getTypes t)
      else [])"

text \<open>The calls that the body of \<^verbatim>\<open>visitInputType\<close> makes once the type is marked.\<close>

definition inputCalls :: "namedType \<Rightarrow> call list" where
  "inputCalls t =
     (if isInputObjectType t then map (\<lambda>f. VisitInputType (inputFieldType f)) (getInputFields t)
      else [])"

text \<open>
  The calls made by the body of a call. The source is handed the type object; here it is
  found in the type map under its name, where the schema constructor puts every type that
  is referred to. A name without an entry has no body to run.
\<close>

fun bodyCalls :: "pruningContext \<Rightarrow> call \<Rightarrow> call list" where
  "bodyCalls pruningContext (VisitOutputType n) =
     (case getType (schema pruningContext) n of
        Some t \<Rightarrow> outputCalls pruningContext t
      | None \<Rightarrow> [])"
| "bodyCalls pruningContext (VisitInputType n) =
     (case getType (schema pruningContext) n of
        Some t \<Rightarrow> inputCalls t
      | None \<Rightarrow> [])"

text \<open>
  Both functions start alike: return when the name is in \<open>visitedTypes\<close>, else record it
  there and clear its flag in \<open>unusedTypes\<close>.
\<close>

definition mark :: "string \<Rightarrow> string set \<times> pruningContext \<Rightarrow> string set \<times> pruningContext" where
  "mark n st =
     (insert n (fst st),
      (snd st)\<lparr> unusedTypes := (unusedTypes (snd st))(n \<mapsto> False) \<rparr>)"

text \<open>
  \<open>visitCalls cs st\<close> runs the calls \<open>cs\<close> one after the other, as the loops of the source do,
  on the state \<open>st\<close>: the record \<open>visitedTypes\<close> (the set of its keys, all \<^verbatim>\<open>true\<close>) and the
  pruning context. A call on a visited name returns at once; any other marks the name and
  runs the calls of its body before the next call of the loop starts.
\<close>

function visitCalls ::
  "call list \<Rightarrow> string set \<times> pruningContext \<Rightarrow> string set \<times> pruningContext" where
  "visitCalls [] st = st"
| "visitCalls (c # cs) st =
     (if callName c \<in> fst st then visitCalls cs st
      else visitCalls cs (visitCalls (bodyCalls (snd st) c) (mark (callName c) st)))"
  by pat_completeness auto

text \<open>
  Termination. Every call made by a body is one of the finitely many calls that the types
  of the type map can make, so a call that passes the guard takes a name out of a finite
  stock, and a call that returns at the guard shortens the list that remains.
\<close>

definition allCalls :: "pruningContext \<Rightarrow> call list" where
  "allCalls pruningContext =
     concat (map (\<lambda>t. outputCalls pruningContext t @ inputCalls t)
                 (typeMap (schema pruningContext)))"

lemma getType_in_typeMap: "getType s n = Some t \<Longrightarrow> t \<in> set (typeMap s) \<and> typeName t = n"
  by (auto simp: getType_def find_Some_iff)

lemma bodyCalls_subset: "set (bodyCalls ctx c) \<subseteq> set (allCalls ctx)"
  by (cases c) (auto simp: allCalls_def split: option.splits dest!: getType_in_typeMap [OF sym])

lemma outputCalls_cong:
  "implementations c1 = implementations c2 \<Longrightarrow> outputCalls c1 t = outputCalls c2 t"
  by (simp add: outputCalls_def getImplementations_def)

lemma allCalls_cong:
  "schema c1 = schema c2 \<Longrightarrow> implementations c1 = implementations c2 \<Longrightarrow> allCalls c1 = allCalls c2"
  by (simp add: allCalls_def outputCalls_cong [of c1 c2])

lemma mark_simps [simp]:
  "fst (mark n st) = insert n (fst st)"
  "schema (snd (mark n st)) = schema (snd st)"
  "implementations (snd (mark n st)) = implementations (snd st)"
  by (simp_all add: mark_def)

lemma visitCalls_partial_frame:
  "visitCalls_dom (cs, st) \<Longrightarrow>
     fst st \<subseteq> fst (visitCalls cs st)
     \<and> schema (snd (visitCalls cs st)) = schema (snd st)
     \<and> implementations (snd (visitCalls cs st)) = implementations (snd st)"
proof (induction cs st rule: visitCalls.pinduct)
  case (1 st)
  then show ?case by (simp add: visitCalls.psimps)
next
  case (2 c cs st)
  then show ?case by (auto simp: visitCalls.psimps)
qed

termination visitCalls
proof (relation "inv_image (finite_psubset <*lex*> less_than)
          (\<lambda>(cs, st). ((callName ` set (allCalls (snd st)) \<union> callName ` set cs) - fst st, length cs))")
  show "wf (inv_image (finite_psubset <*lex*> less_than)
          (\<lambda>(cs, st). ((callName ` set (allCalls (snd st)) \<union> callName ` set cs) - fst st, length cs)))"
    by (intro wf_inv_image wf_lex_prod wf_finite_psubset wf_less_than)
next
  fix c cs and st :: "string set \<times> pruningContext"
  assume "callName c \<in> fst st"
  then show "((cs, st), c # cs, st) \<in> inv_image (finite_psubset <*lex*> less_than)
          (\<lambda>(cs, st). ((callName ` set (allCalls (snd st)) \<union> callName ` set cs) - fst st, length cs))"
    by (auto simp: finite_psubset_def)
next
  fix c cs and st :: "string set \<times> pruningContext"
  assume "callName c \<notin> fst st"
  have "allCalls (snd (mark (callName c) st)) = allCalls (snd st)"
    by (rule allCalls_cong) simp_all
  with \<open>callName c \<notin> fst st\<close> bodyCalls_subset [of "snd st" c]
  show "((bodyCalls (snd st) c, mark (callName c) st), c # cs, st) \<in> inv_image (finite_psubset <*lex*> less_than)
          (\<lambda>(cs, st). ((callName ` set (allCalls (snd st)) \<union> callName ` set cs) - fst st, length cs))"
    by (auto simp: finite_psubset_def)
next
  fix c cs and st :: "string set \<times> pruningContext"
  assume nv: "callName c \<notin> fst st"
    and dom: "visitCalls_dom (bodyCalls (snd st) c, mark (callName c) st)"
  let ?st' = "visitCalls (bodyCalls (snd st) c) (mark (callName c) st)"
  from visitCalls_partial_frame [OF dom]
  have sub: "insert (callName c) (fst st) \<subseteq> fst ?st'"
    and sch: "schema (snd ?st') = schema (snd st)"
    and imp: "implementations (snd ?st') = implementations (snd st)"
    by simp_all
  have "allCalls (snd ?st') = allCalls (snd st)"
    by (rule allCalls_cong) (simp_all add: sch imp)
  with nv sub
  show "((cs, ?st'), c # cs, st) \<in> inv_image (finite_psubset <*lex*> less_than)
          (\<lambda>(cs, st). ((callName ` set (allCalls (snd st)) \<union> callName ` set cs) - fst st, length cs))"
    by (auto simp: finite_psubset_def)
qed

text \<open>A run of calls only adds to \<open>visitedTypes\<close>, and leaves the schema and the index alone.\<close>

lemma visitCalls_frame:
  "fst st \<subseteq> fst (visitCalls cs st)
   \<and> schema (snd (visitCalls cs st)) = schema (snd st)
   \<and> implementations (snd (visitCalls cs st)) = implementations (snd st)"
proof (induction cs st rule: visitCalls.induct)
  case (1 st)
  then show ?case by simp
next
  case (2 c cs st)
  then show ?case by auto
qed

lemma visitCalls_mono: "fst st \<subseteq> fst (visitCalls cs st)"
  using visitCalls_frame by blast

lemma visitCalls_schema [simp]: "schema (snd (visitCalls cs st)) = schema (snd st)"
  using visitCalls_frame by blast

lemma visitCalls_implementations [simp]:
  "implementations (snd (visitCalls cs st)) = implementations (snd st)"
  using visitCalls_frame by blast

definition visitOutputType ::
  "string \<Rightarrow> string set \<times> pruningContext \<Rightarrow> string set \<times> pruningContext" where
  "visitOutputType n st = visitCalls [VisitOutputType n] st"

definition visitInputType ::
  "string \<Rightarrow> string set \<times> pruningContext \<Rightarrow> string set \<times> pruningContext" where
  "visitInputType n st = visitCalls [VisitInputType n] st"

text \<open>The body of the first loop of \<^verbatim>\<open>visitTypes\<close>, for one key of the type map.\<close>

definition flagUnused :: "string \<Rightarrow> (string \<rightharpoonup> bool) \<Rightarrow> (string \<rightharpoonup> bool)" where
  "flagUnused tn unused = (if \<not> startsWith tn ''__'' then unused(tn \<mapsto> True) else unused)"

text \<open>The calls of the two seeding loops of \<^verbatim>\<open>visitTypes\<close>, in order.\<close>

definition rootCalls :: "schema \<Rightarrow> call list" where
  "rootCalls s = map VisitOutputType (rootTypes s)"

definition directiveCalls :: "schema \<Rightarrow> call list" where
  "directiveCalls s = concat (map (\<lambda>d. map VisitInputType (directiveArgs d)) (directives s))"

text \<open>The first loop of \<^verbatim>\<open>visitTypes\<close>: every key of the type map, reserved names apart, is flagged.\<close>

definition flagTypes :: "pruningContext \<Rightarrow> pruningContext" where
  "flagTypes pruningContext =
     pruningContext
       \<lparr> unusedTypes :=
           fold flagUnused (map typeName (typeMap (schema pruningContext)))
             (unusedTypes pruningContext) \<rparr>"

text \<open>
  \<^verbatim>\<open>visitTypes\<close>, returning its local \<open>visitedTypes\<close> beside the context that the source
  updates in place: the flags are set, \<open>visitedTypes\<close> starts empty, the root types are
  visited in output position and then the directive arguments in input position.
\<close>

definition visitTypesState :: "pruningContext \<Rightarrow> string set \<times> pruningContext" where
  "visitTypesState pruningContext =
     (let s = schema pruningContext;
          visitedTypes = {}
      in visitCalls (directiveCalls s)
           (visitCalls (rootCalls s) (visitedTypes, flagTypes pruningContext)))"

definition visitTypes :: "pruningContext \<Rightarrow> pruningContext" where
  "visitTypes pruningContext = snd (visitTypesState pruningContext)"

subsection \<open>The trace of a marking pass\<close>

text \<open>
  The calls of a run in the order in which they are made, each with the outcome of its
  guard: \<open>True\<close> when the call marked the name, \<open>False\<close> when it returned at once. The trace
  follows the recursion of \<open>visitCalls\<close> and is used only to state which call marked a name.
  \<open>markingTrace\<close> is the trace of the pass that \<^verbatim>\<open>visitTypes\<close> runs on a fresh context.
\<close>

function visitTrace :: "call list \<Rightarrow> string set \<times> pruningContext \<Rightarrow> (call \<times> bool) list" where
  "visitTrace [] st = []"
| "visitTrace (c # cs) st =
     (if callName c \<in> fst st then (c, False) # visitTrace cs st
      else (c, True)
           # visitTrace (bodyCalls (snd st) c) (mark (callName c) st)
           @ visitTrace cs (visitCalls (bodyCalls (snd st) c) (mark (callName c) st)))"
  by pat_completeness auto

termination visitTrace
proof (relation "inv_image (finite_psubset <*lex*> less_than)
          (\<lambda>(cs, st). ((callName ` set (allCalls (snd st)) \<union> callName ` set cs) - fst st, length cs))")
  show "wf (inv_image (finite_psubset <*lex*> less_than)
          (\<lambda>(cs, st). ((callName ` set (allCalls (snd st)) \<union> callName ` set cs) - fst st, length cs)))"
    by (intro wf_inv_image wf_lex_prod wf_finite_psubset wf_less_than)
next
  fix c cs and st :: "string set \<times> pruningContext"
  assume "callName c \<in> fst st"
  then show "((cs, st), c # cs, st) \<in> inv_image (finite_psubset <*lex*> less_than)
          (\<lambda>(cs, st). ((callName ` set (allCalls (snd st)) \<union> callName ` set cs) - fst st, length cs))"
    by (auto simp: finite_psubset_def)
next
  fix c cs and st :: "string set \<times> pruningContext"
  assume "callName c \<notin> fst st"
  have "allCalls (snd (mark (callName c) st)) = allCalls (snd st)"
    by (rule allCalls_cong) simp_all
  with \<open>callName c \<notin> fst st\<close> bodyCalls_subset [of "snd st" c]
  show "((bodyCalls (snd st) c, mark (callName c) st), c # cs, st) \<in> inv_image (finite_psubset <*lex*> less_than)
          (\<lambda>(cs, st). ((callName ` set (allCalls (snd st)) \<union> callName ` set cs) - fst st, length cs))"
    by (auto simp: finite_psubset_def)
next
  fix c cs and st :: "string set \<times> pruningContext"
  assume nv: "callName c \<notin> fst st"
  let ?st' = "visitCalls (bodyCalls (snd st) c) (mark (callName c) st)"
  from visitCalls_mono [of "mark (callName c) st" "bodyCalls (snd st) c"]
  have sub: "insert (callName c) (fst st) \<subseteq> fst ?st'"
    by simp
  have "allCalls (snd ?st') = allCalls (snd st)"
    by (rule allCalls_cong) simp_all
  with nv sub
  show "((cs, ?st'), c # cs, st) \<in> inv_image (finite_psubset <*lex*> less_than)
          (\<lambda>(cs, st). ((callName ` set (allCalls (snd st)) \<union> callName ` set cs) - fst st, length cs))"
    by (auto simp: finite_psubset_def)
qed

definition markingTrace :: "schema \<Rightarrow> (call \<times> bool) list" where
  "markingTrace s =
     visitTrace (rootCalls s @ directiveCalls s) ({}, flagTypes (createPruningContext s))"

definition markedBy :: "(call \<times> bool) list \<Rightarrow> call list" where
  "markedBy tr = map fst (filter snd tr)"

fun isOutputCall :: "call \<Rightarrow> bool" where
  "isOutputCall (VisitOutputType n) = True"
| "isOutputCall (VisitInputType n) = False"

definition outputNames :: "call list \<Rightarrow> string set" where
  "outputNames cs = set (map callName (filter isOutputCall cs))"

definition inputNames :: "call list \<Rightarrow> string set" where
  "inputNames cs = set (map callName (filter (\<lambda>c. \<not> isOutputCall c) cs))"

section \<open>The prune selector\<close>

text \<open>
  \<^verbatim>\<open>PruneSchemaOptions\<close>: an absent flag is falsy, an absent predicate is \<open>None\<close>.
\<close>

record pruneSchemaOptions =
  skipPruning :: "(namedType \<Rightarrow> bool) option"
  skipEmptyCompositeTypePruning :: bool
  skipEmptyUnionPruning :: bool
  skipUnimplementedInterfacesPruning :: bool
  skipUnusedTypesPruning :: bool

text \<open>The four disjuncts that occur in the conditions of the selecting loop.\<close>

definition emptyCompositeRule :: "pruneSchemaOptions \<Rightarrow> namedType \<Rightarrow> bool" where
  "emptyCompositeRule options t =
     (length (fieldKeys t) = 0 \<and> \<not> skipEmptyCompositeTypePruning options)"

definition emptyUnionRule :: "pruneSchemaOptions \<Rightarrow> namedType \<Rightarrow> bool" where
  "emptyUnionRule options t =
     (length (getTypes t) = 0 \<and> \<not> skipEmptyUnionPruning options)"

definition unimplementedRule :: "pruneSchemaOptions \<Rightarrow> pruningContext \<Rightarrow> namedType \<Rightarrow> bool" where
  "unimplementedRule options pruningContext t =
     (case getImplementations pruningContext t of
        None \<Rightarrow> False
      | Some impls \<Rightarrow> length impls = 0 \<and> \<not> skipUnimplementedInterfacesPruning options)"

definition unusedRule :: "pruneSchemaOptions \<Rightarrow> pruningContext \<Rightarrow> namedType \<Rightarrow> bool" where
  "unusedRule options pruningContext t =
     (unusedTypes pruningContext (typeName t) = Some True \<and> \<not> skipUnusedTypesPruning options)"

text \<open>The condition under which the loop body adds the name of \<open>t\<close>, by kind of type.\<close>

definition categoryRules :: "pruneSchemaOptions \<Rightarrow> pruningContext \<Rightarrow> namedType \<Rightarrow> bool" where
  "categoryRules options pruningContext t =
     (if isObjectType t \<or> isInputObjectType t then
        emptyCompositeRule options t \<or> unusedRule options pruningContext t
      else if isUnionType t then
        emptyUnionRule options t \<or> unusedRule options pruningContext t
      else if isInterfaceType t then
        emptyCompositeRule options t \<or> unimplementedRule options pruningContext t
        \<or> unusedRule options pruningContext t
      else unusedRule options pruningContext t)"

definition skipPruningHolds :: "pruneSchemaOptions \<Rightarrow> namedType \<Rightarrow> bool" where
  "skipPruningHolds options t =
     (case skipPruning options of None \<Rightarrow> False | Some p \<Rightarrow> p t)"

text \<open>The loop over \<^verbatim>\<open>Object.values(schema.getTypeMap())\<close> that fills \<open>typesToPrune\<close>.\<close>

fun selectTypes ::
  "pruneSchemaOptions \<Rightarrow> pruningContext \<Rightarrow> namedType list \<Rightarrow> string set \<Rightarrow> string set" where
  "selectTypes options pruningContext [] typesToPrune = typesToPrune"
| "selectTypes options pruningContext (t # ts) typesToPrune =
     (if startsWith (typeName t) ''__'' then selectTypes options pruningContext ts typesToPrune
      else if skipPruningHolds options t then selectTypes options pruningContext ts typesToPrune
      else if categoryRules options pruningContext t
        then selectTypes options pruningContext ts (insert (typeName t) typesToPrune)
      else selectTypes options pruningContext ts typesToPrune)"

text \<open>The removal set of one pass on the schema \<open>s\<close>.\<close>

definition typesToPrune :: "pruneSchemaOptions \<Rightarrow> schema \<Rightarrow> string set" where
  "typesToPrune options s =
     selectTypes options (visitTypes (createPruningContext s)) (typeMap s) {}"

subsection \<open>The rules by name\<close>

text \<open>
  The four rules of the selector by name, the flag that governs each, and what a rule
  selects in the pass on a graph: \<open>ruleFires\<close> is the rule's disjunct in the branch that the
  selecting loop takes for the kind of the type.
\<close>

datatype pruningRule = EmptyComposite | EmptyUnion | Unimplemented | Unused

fun governingFlag :: "pruningRule \<Rightarrow> pruneSchemaOptions \<Rightarrow> bool" where
  "governingFlag EmptyComposite options = skipEmptyCompositeTypePruning options"
| "governingFlag EmptyUnion options = skipEmptyUnionPruning options"
| "governingFlag Unimplemented options = skipUnimplementedInterfacesPruning options"
| "governingFlag Unused options = skipUnusedTypesPruning options"

fun ruleFires ::
  "pruningRule \<Rightarrow> pruneSchemaOptions \<Rightarrow> pruningContext \<Rightarrow> namedType \<Rightarrow> bool" where
  "ruleFires EmptyComposite options pruningContext t =
     ((isObjectType t \<or> isInputObjectType t \<or> isInterfaceType t) \<and> emptyCompositeRule options t)"
| "ruleFires EmptyUnion options pruningContext t =
     (isUnionType t \<and> emptyUnionRule options t)"
| "ruleFires Unimplemented options pruningContext t =
     (isInterfaceType t \<and> unimplementedRule options pruningContext t)"
| "ruleFires Unused options pruningContext t = unusedRule options pruningContext t"

definition prunedBy :: "pruningRule \<Rightarrow> pruneSchemaOptions \<Rightarrow> schema \<Rightarrow> string set" where
  "prunedBy r options s =
     set (map typeName
       (filter (\<lambda>t. \<not> startsWith (typeName t) ''__'' \<and> \<not> skipPruningHolds options t
                    \<and> ruleFires r options (visitTypes (createPruningContext s)) t)
               (typeMap s)))"

section \<open>The fixed-point driver\<close>

text \<open>
  \<^verbatim>\<open>mapSchema\<close> lives in another file of the package; the driver takes it as a parameter,
  applied to the schema and to the set of names for which the mapper returns \<^verbatim>\<open>null\<close>.
  The recursion of \<^verbatim>\<open>pruneSchema\<close> has no bound of its own, so the result is an option and
  \<open>None\<close> stands for a run that never returns.
\<close>

partial_function (option) pruneSchema ::
  "(schema \<Rightarrow> string set \<Rightarrow> schema) \<Rightarrow> pruneSchemaOptions \<Rightarrow> schema \<Rightarrow> schema option" where
  "pruneSchema mapSchema options s =
     (if typesToPrune options s \<noteq> {}
      then pruneSchema mapSchema options (mapSchema s (typesToPrune options s))
      else Some (mapSchema s (typesToPrune options s)))"

declare pruneSchema.simps [code]

text \<open>One round of the driver: index, mark, select, rebuild.\<close>

definition pass :: "(schema \<Rightarrow> string set \<Rightarrow> schema) \<Rightarrow> pruneSchemaOptions \<Rightarrow> schema \<Rightarrow> schema" where
  "pass mapSchema options s = mapSchema s (typesToPrune options s)"

subsection \<open>The rebuild\<close>

text \<open>
  Modelled from the spec: the contract of \<^verbatim>\<open>mapSchema\<close> with the deleting mapper, which the
  spec calls \<^verbatim>\<open>rebuildExcluding\<close> and describes as returning a new graph equal to the input
  with every type whose name is in the set deleted. \<open>deletesNamed\<close>: the names of the rebuilt
  graph are those of the input less the deleted ones. \<open>keepsUnpruned\<close>: a rebuild that deletes
  nothing returns the input.
\<close>

definition deletesNamed :: "(schema \<Rightarrow> string set \<Rightarrow> schema) \<Rightarrow> bool" where
  "deletesNamed mapSchema = (\<forall>s R. typeNames (mapSchema s R) = typeNames s - R)"

definition keepsUnpruned :: "(schema \<Rightarrow> string set \<Rightarrow> schema) \<Rightarrow> bool" where
  "keepsUnpruned mapSchema = (\<forall>s. mapSchema s {} = s)"

text \<open>
  Modelled from the spec: \<^verbatim>\<open>mapSchema\<close> with a mapper that deletes the types named in \<open>R\<close>,
  which the spec calls \<^verbatim>\<open>rebuildExcluding\<close>: the input graph with every type whose name is
  in \<open>R\<close> deleted. The spec leaves the fate of a reference to a deleted type to the builder;
  here the referring field, argument, interface entry, union member, directive argument
  or root entry is dropped with it.
\<close>

definition keepName :: "string set \<Rightarrow> string \<Rightarrow> bool" where
  "keepName R n = (n \<notin> R)"

definition rebuildField :: "string set \<Rightarrow> field \<Rightarrow> field" where
  "rebuildField R f = f \<lparr> fieldArgs := filter (keepName R) (fieldArgs f) \<rparr>"

definition rebuildFields :: "string set \<Rightarrow> field list \<Rightarrow> field list" where
  "rebuildFields R fs = map (rebuildField R) (filter (\<lambda>f. keepName R (fieldType f)) fs)"

fun rebuildType :: "string set \<Rightarrow> namedType \<Rightarrow> namedType" where
  "rebuildType R (GraphQLScalarType n) = GraphQLScalarType n"
| "rebuildType R (GraphQLObjectType n fs is) =
     GraphQLObjectType n (rebuildFields R fs) (filter (keepName R) is)"
| "rebuildType R (GraphQLInterfaceType n fs is) =
     GraphQLInterfaceType n (rebuildFields R fs) (filter (keepName R) is)"
| "rebuildType R (GraphQLUnionType n ms) = GraphQLUnionType n (filter (keepName R) ms)"
| "rebuildType R (GraphQLEnumType n) = GraphQLEnumType n"
| "rebuildType R (GraphQLInputObjectType n fs) =
     GraphQLInputObjectType n (filter (\<lambda>f. keepName R (inputFieldType f)) fs)"

definition rebuildExcluding :: "schema \<Rightarrow> string set \<Rightarrow> schema" where
  "rebuildExcluding s R =
     \<lparr> typeMap = map (rebuildType R) (filter (\<lambda>t. keepName R (typeName t)) (typeMap s)),
       directives =
         map (\<lambda>d. d \<lparr> directiveArgs := filter (keepName R) (directiveArgs d) \<rparr>) (directives s),
       rootTypes = filter (keepName R) (rootTypes s) \<rparr>"

section \<open>Reachability by the traversal rules\<close>

text \<open>
  The type under the key \<open>tn\<close> of the type map declares that it implements the interface
  named \<open>iface\<close>; the implementers of an interface are the keys whose type declares it.
\<close>

definition declares :: "schema \<Rightarrow> string \<Rightarrow> string \<Rightarrow> bool" where
  "declares s tn iface =
     (case getType s tn of
        None \<Rightarrow> False
      | Some t \<Rightarrow> (case getInterfaces t of None \<Rightarrow> False | Some ifaces \<Rightarrow> iface \<in> set ifaces))"

definition implementers :: "schema \<Rightarrow> string \<Rightarrow> string set" where
  "implementers s iface = {tn \<in> typeNames s. declares s tn iface}"

definition keysOf :: "(string \<rightharpoonup> string list) \<Rightarrow> string \<Rightarrow> string set" where
  "keysOf impls iface = (case impls iface of None \<Rightarrow> {} | Some ks \<Rightarrow> set ks)"

text \<open>
  Reachability, stated on the graph alone. A call stands for a type name in a position:
  \<open>VisitOutputType n\<close> for \<open>n\<close> in output position, \<open>VisitInputType n\<close> for \<open>n\<close> in input
  position. The seeds are the root types and the arguments of the directives; an object or
  interface leads to the types of its fields and of their arguments and to the interfaces
  it declares, an interface to the types that declare it, a union to its members, an input
  object to the types of its fields.

  \<open>wellKinded\<close> is the discipline of kinds of GraphQL as far as the marker depends on it: a
  name in an output position is not that of an input object, a name in an input position
  is not that of an object, interface or union. \<open>kindCalls\<close> are the calls made by the body of
  the visit that suits the kind of the type.
\<close>

inductive reach :: "schema \<Rightarrow> call \<Rightarrow> bool" for s :: schema where
  root:
    "n \<in> set (rootTypes s) \<Longrightarrow> reach s (VisitOutputType n)"
| directiveArgument:
    "d \<in> set (directives s) \<Longrightarrow> a \<in> set (directiveArgs d) \<Longrightarrow> reach s (VisitInputType a)"
| fieldType:
    "reach s (VisitOutputType n) \<Longrightarrow> getType s n = Some t \<Longrightarrow>
     isObjectType t \<or> isInterfaceType t \<Longrightarrow> f \<in> set (getFields t) \<Longrightarrow>
     reach s (VisitOutputType (fieldType f))"
| fieldArgument:
    "reach s (VisitOutputType n) \<Longrightarrow> getType s n = Some t \<Longrightarrow>
     isObjectType t \<or> isInterfaceType t \<Longrightarrow> f \<in> set (getFields t) \<Longrightarrow>
     a \<in> set (fieldArgs f) \<Longrightarrow> reach s (VisitInputType a)"
| implementer:
    "reach s (VisitOutputType n) \<Longrightarrow> getType s n = Some t \<Longrightarrow> isInterfaceType t \<Longrightarrow>
     m \<in> implementers s n \<Longrightarrow> reach s (VisitOutputType m)"
| implemented:
    "reach s (VisitOutputType n) \<Longrightarrow> getType s n = Some t \<Longrightarrow>
     getInterfaces t = Some ifaces \<Longrightarrow> i \<in> set ifaces \<Longrightarrow> reach s (VisitOutputType i)"
| member:
    "reach s (VisitOutputType n) \<Longrightarrow> getType s n = Some t \<Longrightarrow> isUnionType t \<Longrightarrow>
     m \<in> set (getTypes t) \<Longrightarrow> reach s (VisitOutputType m)"
| inputFieldType:
    "reach s (VisitInputType n) \<Longrightarrow> getType s n = Some t \<Longrightarrow> isInputObjectType t \<Longrightarrow>
     f \<in> set (getInputFields t) \<Longrightarrow> reach s (VisitInputType (inputFieldType f))"

definition outputKind :: "schema \<Rightarrow> string \<Rightarrow> bool" where
  "outputKind s n = (case getType s n of None \<Rightarrow> True | Some t \<Rightarrow> \<not> isInputObjectType t)"

definition inputKind :: "schema \<Rightarrow> string \<Rightarrow> bool" where
  "inputKind s n =
     (case getType s n of
        None \<Rightarrow> True
      | Some t \<Rightarrow> \<not> (isObjectType t \<or> isInterfaceType t \<or> isUnionType t))"

fun wellPlaced :: "schema \<Rightarrow> call \<Rightarrow> bool" where
  "wellPlaced s (VisitOutputType n) = outputKind s n"
| "wellPlaced s (VisitInputType n) = inputKind s n"

definition wellKinded :: "schema \<Rightarrow> bool" where
  "wellKinded s =
     ((\<forall>n \<in> set (rootTypes s). outputKind s n)
      \<and> (\<forall>d \<in> set (directives s). \<forall>a \<in> set (directiveArgs d). inputKind s a)
      \<and> (\<forall>t \<in> set (typeMap s).
            (\<forall>f \<in> set (getFields t).
               outputKind s (fieldType f) \<and> (\<forall>a \<in> set (fieldArgs f). inputKind s a))
            \<and> (\<forall>i \<in> set (case getInterfaces t of None \<Rightarrow> [] | Some ifaces \<Rightarrow> ifaces).
                  outputKind s i)
            \<and> (\<forall>m \<in> set (getTypes t). outputKind s m)
            \<and> (\<forall>f \<in> set (getInputFields t). inputKind s (inputFieldType f))))"

definition kindCalls :: "pruningContext \<Rightarrow> string \<Rightarrow> call list" where
  "kindCalls pruningContext n =
     (case getType (schema pruningContext) n of
        None \<Rightarrow> []
      | Some t \<Rightarrow> outputCalls pruningContext t @ inputCalls t)"

section \<open>Example graphs\<close>

text \<open>
  The default options and a few small graphs, each with the query root \<open>Query\<close> and the scalar
  \<open>String\<close>: beside an object type that nothing refers to and a type with a reserved name;
  with a field of an interface type that one object type implements; with a field of an
  interface type without fields that one object type implements; with a field of an
  interface type that nothing implements; with a field of an object type without fields;
  with a field of a union type without members.
\<close>

definition defaultOptions :: pruneSchemaOptions where
  "defaultOptions =
     \<lparr> skipPruning = None,
       skipEmptyCompositeTypePruning = False,
       skipEmptyUnionPruning = False,
       skipUnimplementedInterfacesPruning = False,
       skipUnusedTypesPruning = False \<rparr>"

definition stringField :: "string \<Rightarrow> field" where
  "stringField n = \<lparr> fieldName = n, fieldType = ''String'', fieldArgs = [] \<rparr>"

definition unusedObjectSchema :: schema where
  "unusedObjectSchema =
     \<lparr> typeMap =
         [GraphQLObjectType ''Query'' [stringField ''foo''] [],
          GraphQLScalarType ''String'',
          GraphQLObjectType ''Unused'' [stringField ''bar''] [],
          GraphQLObjectType ''__Hidden'' [stringField ''baz''] []],
       directives = [],
       rootTypes = [''Query''] \<rparr>"

definition interfaceSchema :: schema where
  "interfaceSchema =
     \<lparr> typeMap =
         [GraphQLObjectType ''Query''
            [stringField ''a'', \<lparr> fieldName = ''node'', fieldType = ''Node'', fieldArgs = [''String''] \<rparr>] [],
          GraphQLScalarType ''String'',
          GraphQLInterfaceType ''Node'' [stringField ''id''] [],
          GraphQLObjectType ''User'' [stringField ''id''] [''Node'']],
       directives = [],
       rootTypes = [''Query''] \<rparr>"

definition orphanedImplementerSchema :: schema where
  "orphanedImplementerSchema =
     \<lparr> typeMap =
         [GraphQLObjectType ''Query''
            [stringField ''a'', \<lparr> fieldName = ''e'', fieldType = ''E'', fieldArgs = [] \<rparr>] [],
          GraphQLScalarType ''String'',
          GraphQLInterfaceType ''E'' [] [],
          GraphQLObjectType ''T'' [stringField ''y''] [''E'']],
       directives = [],
       rootTypes = [''Query''] \<rparr>"

definition unimplementedInterfaceSchema :: schema where
  "unimplementedInterfaceSchema =
     \<lparr> typeMap =
         [GraphQLObjectType ''Query''
            [stringField ''a'', \<lparr> fieldName = ''n'', fieldType = ''Named'', fieldArgs = [] \<rparr>] [],
          GraphQLScalarType ''String'',
          GraphQLInterfaceType ''Named'' [stringField ''x''] []],
       directives = [],
       rootTypes = [''Query''] \<rparr>"

definition emptyFieldTypeSchema :: schema where
  "emptyFieldTypeSchema =
     \<lparr> typeMap =
         [GraphQLObjectType ''Query''
            [stringField ''a'', \<lparr> fieldName = ''e'', fieldType = ''Empty'', fieldArgs = [] \<rparr>] [],
          GraphQLScalarType ''String'',
          GraphQLObjectType ''Empty'' [] []],
       directives = [],
       rootTypes = [''Query''] \<rparr>"

definition emptyUnionSchema :: schema where
  "emptyUnionSchema =
     \<lparr> typeMap =
         [GraphQLObjectType ''Query''
            [stringField ''a'', \<lparr> fieldName = ''u'', fieldType = ''U'', fieldArgs = [] \<rparr>] [],
          GraphQLScalarType ''String'',
          GraphQLUnionType ''U'' []],
       directives = [],
       rootTypes = [''Query''] \<rparr>"

section \<open>Properties of the implementation index\<close>

lemma set_setKey [simp]: "set (setKey k ks) = insert k (set ks)"
  by (auto simp: setKey_def)

lemma setKey_not_Nil [simp]: "setKey k ks \<noteq> []"
  by (auto simp: setKey_def)

lemma addImplementation_apply:
  "addImplementation tn iface impls j =
     (if j = iface then Some (setKey tn (case impls iface of None \<Rightarrow> [] | Some ks \<Rightarrow> ks))
      else impls j)"
  by (simp add: addImplementation_def Let_def split: option.splits)

lemma addImplementation_None:
  "addImplementation tn iface impls j = None \<longleftrightarrow> j \<noteq> iface \<and> impls j = None"
  by (simp add: addImplementation_apply)

lemma addImplementation_keys:
  "keysOf (addImplementation tn iface impls) j =
     (if j = iface then insert tn (keysOf impls j) else keysOf impls j)"
  by (simp add: keysOf_def addImplementation_apply split: option.splits)

lemma addImplementation_nonempty:
  "impls j \<noteq> Some [] \<Longrightarrow> addImplementation tn iface impls j \<noteq> Some []"
  by (simp add: addImplementation_apply)

lemma fold_addImplementation_None:
  "fold (addImplementation tn) ifaces impls j = None \<longleftrightarrow> j \<notin> set ifaces \<and> impls j = None"
  by (induction ifaces arbitrary: impls) (auto simp: addImplementation_None)

lemma fold_addImplementation_keys:
  "keysOf (fold (addImplementation tn) ifaces impls) j =
     (if j \<in> set ifaces then insert tn (keysOf impls j) else keysOf impls j)"
  by (induction ifaces arbitrary: impls) (auto simp: addImplementation_keys)

lemma fold_addImplementation_nonempty:
  "impls j \<noteq> Some [] \<Longrightarrow> fold (addImplementation tn) ifaces impls j \<noteq> Some []"
  by (induction ifaces arbitrary: impls) (auto simp: addImplementation_nonempty)

lemma getType_typeName: "getType s n = Some t \<Longrightarrow> typeName t = n"
  by (auto simp: getType_def find_Some_iff)

lemma indexType_None:
  "indexType s tn impls j = None \<longleftrightarrow> \<not> declares s tn j \<and> impls j = None"
  by (auto simp: indexType_def declares_def fold_addImplementation_None split: option.splits)

lemma indexType_keys:
  "keysOf (indexType s tn impls) j =
     (if declares s tn j then insert tn (keysOf impls j) else keysOf impls j)"
  by (auto simp: indexType_def declares_def fold_addImplementation_keys
      split: option.splits dest: getType_typeName)

lemma indexType_nonempty:
  "impls j \<noteq> Some [] \<Longrightarrow> indexType s tn impls j \<noteq> Some []"
  by (auto simp: indexType_def fold_addImplementation_nonempty split: option.splits)

lemma fold_indexType_None:
  "fold (indexType s) tns impls j = None \<longleftrightarrow> (\<forall>tn \<in> set tns. \<not> declares s tn j) \<and> impls j = None"
  by (induction tns arbitrary: impls) (auto simp: indexType_None)

lemma fold_indexType_keys:
  "keysOf (fold (indexType s) tns impls) j = {tn \<in> set tns. declares s tn j} \<union> keysOf impls j"
  by (induction tns arbitrary: impls) (auto simp: indexType_keys)

lemma fold_indexType_nonempty:
  "impls j \<noteq> Some [] \<Longrightarrow> fold (indexType s) tns impls j \<noteq> Some []"
  by (induction tns arbitrary: impls) (auto simp: indexType_nonempty)

lemma index_None:
  "implementations (createPruningContext s) j = None \<longleftrightarrow> implementers s j = {}"
  by (auto simp: createPruningContext_def fold_indexType_None implementers_def typeNames_def)

lemma index_keys:
  "keysOf (implementations (createPruningContext s)) j = implementers s j"
proof -
  have "keysOf Map.empty j = {}"
    by (simp add: keysOf_def)
  then show ?thesis
    by (simp add: createPruningContext_def fold_indexType_keys implementers_def typeNames_def)
qed

lemma index_nonempty:
  "implementations (createPruningContext s) j \<noteq> Some []"
  by (simp add: createPruningContext_def fold_indexType_nonempty)

section \<open>Properties of the marker and the selector\<close>

lemma mark_unused [simp]:
  "unusedTypes (snd (mark n st)) m = (if m = n then Some False else unusedTypes (snd st) m)"
  by (simp add: mark_def)

lemma visitCalls_unused:
  "unusedTypes (snd (visitCalls cs st)) n =
     (if n \<in> fst (visitCalls cs st) - fst st then Some False else unusedTypes (snd st) n)"
proof (induction cs st rule: visitCalls.induct)
  case (1 st)
  then show ?case by simp
next
  case (2 c cs st)
  show ?case
  proof (cases "callName c \<in> fst st")
    case True
    with 2 show ?thesis by simp
  next
    case False
    let ?st1 = "mark (callName c) st"
    let ?st2 = "visitCalls (bodyCalls (snd st) c) ?st1"
    have m1: "fst ?st1 \<subseteq> fst ?st2" and m2: "fst ?st2 \<subseteq> fst (visitCalls cs ?st2)"
      by (rule visitCalls_mono)+
    from False 2 m1 m2 show ?thesis
      by (auto split: if_splits)
  qed
qed

lemma fold_flagUnused:
  "fold flagUnused tns unused n =
     (if n \<in> set tns \<and> \<not> startsWith n ''__'' then Some True else unused n)"
  by (induction tns arbitrary: unused) (auto simp: flagUnused_def)

lemma flagTypes_simps [simp]:
  "schema (flagTypes ctx) = schema ctx"
  "implementations (flagTypes ctx) = implementations ctx"
  "unusedTypes (flagTypes ctx) n =
     (if n \<in> typeNames (schema ctx) \<and> \<not> startsWith n ''__'' then Some True else unusedTypes ctx n)"
  by (simp_all add: flagTypes_def fold_flagUnused typeNames_def)

lemma visitTypes_schema [simp]: "schema (visitTypes ctx) = schema ctx"
  by (simp add: visitTypes_def visitTypesState_def Let_def)

lemma visitTypes_implementations [simp]: "implementations (visitTypes ctx) = implementations ctx"
  by (simp add: visitTypes_def visitTypesState_def Let_def)

lemma visitTypes_unused:
  "unusedTypes (visitTypes ctx) n =
     (if n \<in> fst (visitTypesState ctx) then Some False
      else if n \<in> typeNames (schema ctx) \<and> \<not> startsWith n ''__'' then Some True
      else unusedTypes ctx n)"
proof -
  let ?s = "schema ctx"
  let ?st0 = "({}, flagTypes ctx)"
  let ?st1 = "visitCalls (rootCalls ?s) ?st0"
  let ?st2 = "visitCalls (directiveCalls ?s) ?st1"
  have st: "visitTypesState ctx = ?st2"
    by (simp add: visitTypesState_def Let_def)
  have mono: "fst ?st1 \<subseteq> fst ?st2"
    by (rule visitCalls_mono)
  have u1: "unusedTypes (snd ?st1) n =
      (if n \<in> fst ?st1 then Some False else unusedTypes (flagTypes ctx) n)"
    by (simp add: visitCalls_unused [of "rootCalls ?s"])
  have u2: "unusedTypes (snd ?st2) n =
      (if n \<in> fst ?st2 - fst ?st1 then Some False else unusedTypes (snd ?st1) n)"
    by (rule visitCalls_unused)
  show ?thesis
    unfolding visitTypes_def st using mono u1 u2 by auto
qed

lemma selectTypes_iff:
  "n \<in> selectTypes options ctx ts acc \<longleftrightarrow>
     n \<in> acc \<or> (\<exists>t \<in> set ts. typeName t = n \<and> \<not> startsWith n ''__''
                   \<and> \<not> skipPruningHolds options t \<and> categoryRules options ctx t)"
  by (induction ts arbitrary: acc) auto

lemma typesToPrune_iff:
  "n \<in> typesToPrune options s \<longleftrightarrow>
     (\<exists>t \<in> set (typeMap s). typeName t = n \<and> \<not> startsWith n ''__''
         \<and> \<not> skipPruningHolds options t
         \<and> categoryRules options (visitTypes (createPruningContext s)) t)"
  by (simp add: typesToPrune_def selectTypes_iff)

lemma typesToPrune_subset: "typesToPrune options s \<subseteq> typeNames s"
  by (auto simp: typesToPrune_iff typeNames_def)

lemma createPruningContext_simps [simp]:
  "schema (createPruningContext s) = s"
  "unusedTypes (createPruningContext s) = Map.empty"
  by (simp_all add: createPruningContext_def)

lemma distinct_typeName_eq:
  "distinct (map typeName ts) \<Longrightarrow> t \<in> set ts \<Longrightarrow> t' \<in> set ts \<Longrightarrow> typeName t = typeName t' \<Longrightarrow> t = t'"
  by (meson distinct_map inj_onD)

section \<open>Properties of the driver and the rebuild\<close>

lemma typeName_rebuildType [simp]: "typeName (rebuildType R t) = typeName t"
  by (cases t) simp_all

lemma rebuildExcluding_names: "typeNames (rebuildExcluding s R) = typeNames s - R"
  by (auto simp: rebuildExcluding_def typeNames_def keepName_def)

lemma rebuildFields_empty [simp]: "rebuildFields {} fs = fs"
  by (induction fs) (simp_all add: rebuildFields_def rebuildField_def keepName_def)

lemma rebuildType_empty [simp]: "rebuildType {} t = t"
  by (cases t) (simp_all add: keepName_def)

lemma map_rebuildType_empty [simp]: "map (rebuildType {}) ts = ts"
  by (induction ts) simp_all

lemma rebuildExcluding_empty: "rebuildExcluding s {} = s"
  by (simp add: rebuildExcluding_def keepName_def)

lemma rebuildExcluding_deletesNamed: "deletesNamed rebuildExcluding"
  by (simp add: deletesNamed_def rebuildExcluding_names)

lemma rebuildExcluding_keepsUnpruned: "keepsUnpruned rebuildExcluding"
  by (simp add: keepsUnpruned_def rebuildExcluding_empty)

lemma pass_names:
  "deletesNamed mapSchema \<Longrightarrow>
     typeNames (pass mapSchema options s) = typeNames s - typesToPrune options s"
  by (simp add: pass_def deletesNamed_def)

lemma pass_card:
  assumes "deletesNamed mapSchema" and "typesToPrune options s \<noteq> {}"
  shows "card (typeNames (pass mapSchema options s)) < card (typeNames s)"
proof -
  have fin: "finite (typeNames s)"
    by (simp add: typeNames_def)
  from assms(2) typesToPrune_subset [of options s]
  have "typeNames s - typesToPrune options s \<subset> typeNames s"
    by blast
  with fin show ?thesis
    by (simp add: pass_names [OF assms(1)] psubset_card_mono)
qed

lemma pruneSchema_unfold:
  "pruneSchema mapSchema options s =
     (if typesToPrune options s \<noteq> {} then pruneSchema mapSchema options (pass mapSchema options s)
      else Some (pass mapSchema options s))"
  by (subst pruneSchema.simps) (simp add: pass_def)

lemma pruneSchema_converges:
  assumes "deletesNamed mapSchema"
  shows "\<exists>k \<le> card (typeNames s).
           typesToPrune options ((pass mapSchema options ^^ k) s) = {}
           \<and> (\<forall>j < k. typesToPrune options ((pass mapSchema options ^^ j) s) \<noteq> {})
           \<and> pruneSchema mapSchema options s = Some ((pass mapSchema options ^^ Suc k) s)"
proof (induction "card (typeNames s)" arbitrary: s rule: less_induct)
  case less
  let ?p = "pass mapSchema options"
  show ?case
  proof (cases "typesToPrune options s = {}")
    case True
    then have "pruneSchema mapSchema options s = Some ((?p ^^ Suc 0) s)"
      by (subst pruneSchema_unfold) simp
    with True show ?thesis
      by (intro exI [of _ 0]) simp
  next
    case False
    have lt: "card (typeNames (?p s)) < card (typeNames s)"
      by (rule pass_card [OF assms False])
    from less [OF lt] obtain k where k: "k \<le> card (typeNames (?p s))"
      and fin: "typesToPrune options ((?p ^^ k) (?p s)) = {}"
      and non: "\<forall>j < k. typesToPrune options ((?p ^^ j) (?p s)) \<noteq> {}"
      and res: "pruneSchema mapSchema options (?p s) = Some ((?p ^^ Suc k) (?p s))"
      by blast
    have shift: "(?p ^^ j) (?p s) = (?p ^^ Suc j) s" for j
      by (simp add: funpow_swap1)
    have "pruneSchema mapSchema options s = Some ((?p ^^ Suc (Suc k)) s)"
      using False res shift [of "Suc k"] by (subst pruneSchema_unfold) simp
    moreover have "typesToPrune options ((?p ^^ Suc k) s) = {}"
      using fin shift [of k] by simp
    moreover have "\<forall>j < Suc k. typesToPrune options ((?p ^^ j) s) \<noteq> {}"
    proof (intro allI impI)
      fix j assume "j < Suc k"
      show "typesToPrune options ((?p ^^ j) s) \<noteq> {}"
      proof (cases j)
        case 0
        with False show ?thesis by simp
      next
        case (Suc i)
        with \<open>j < Suc k\<close> non shift [of i] show ?thesis by auto
      qed
    qed
    moreover have "Suc k \<le> card (typeNames s)"
      using k lt by simp
    ultimately show ?thesis
      by blast
  qed
qed

lemma pass_names_subset:
  "deletesNamed mapSchema \<Longrightarrow> typeNames ((pass mapSchema options ^^ k) s) \<subseteq> typeNames s"
  by (induction k) (auto simp: pass_names)

section \<open>Properties of the rules\<close>

lemma categoryRules_iff_ruleFires:
  "categoryRules options ctx t \<longleftrightarrow> (\<exists>r. ruleFires r options ctx t)"
proof
  assume "categoryRules options ctx t"
  then have "ruleFires EmptyComposite options ctx t \<or> ruleFires EmptyUnion options ctx t
      \<or> ruleFires Unimplemented options ctx t \<or> ruleFires Unused options ctx t"
    by (cases t) (auto simp: categoryRules_def)
  then show "\<exists>r. ruleFires r options ctx t" by blast
next
  assume "\<exists>r. ruleFires r options ctx t"
  then obtain r where "ruleFires r options ctx t" ..
  then show "categoryRules options ctx t"
    by (cases r; cases t) (auto simp: categoryRules_def)
qed

lemma prunedBy_iff:
  "n \<in> prunedBy r options s \<longleftrightarrow>
     (\<exists>t \<in> set (typeMap s). typeName t = n \<and> \<not> startsWith n ''__''
         \<and> \<not> skipPruningHolds options t
         \<and> ruleFires r options (visitTypes (createPruningContext s)) t)"
  by (auto simp: prunedBy_def)

lemma typesToPrune_by_rule: "typesToPrune options s = (\<Union>r. prunedBy r options s)"
proof (rule set_eqI)
  fix n
  show "n \<in> typesToPrune options s \<longleftrightarrow> n \<in> (\<Union>r. prunedBy r options s)"
    unfolding typesToPrune_iff UN_iff prunedBy_iff categoryRules_iff_ruleFires
    by blast
qed

lemma ruleFires_cong:
  "governingFlag r options' = governingFlag r options \<Longrightarrow>
     ruleFires r options' ctx t = ruleFires r options ctx t"
  by (cases r)
     (simp_all add: emptyCompositeRule_def emptyUnionRule_def unimplementedRule_def unusedRule_def
        split: option.splits)

lemma unimplementedRule_never:
  "\<not> unimplementedRule options (visitTypes (createPruningContext s)) t"
  using index_nonempty [of s "typeName t"]
  by (auto simp: unimplementedRule_def getImplementations_def split: option.splits)

text \<open>
  So the flag \<^verbatim>\<open>skipUnimplementedInterfacesPruning\<close> has no effect on the removal set of a pass.
\<close>

lemma unimplemented_flag_without_effect:
  "typesToPrune (options \<lparr> skipUnimplementedInterfacesPruning := b \<rparr>) s = typesToPrune options s"
proof -
  let ?ctx = "visitTypes (createPruningContext s)"
  have "categoryRules (options \<lparr> skipUnimplementedInterfacesPruning := b \<rparr>) ?ctx t
          = categoryRules options ?ctx t" for t
    using unimplementedRule_never [of options s t]
      unimplementedRule_never [of "options \<lparr> skipUnimplementedInterfacesPruning := b \<rparr>" s t]
    by (simp add: categoryRules_def emptyCompositeRule_def emptyUnionRule_def unusedRule_def)
  then show ?thesis
    by (auto simp: typesToPrune_iff skipPruningHolds_def)
qed

section \<open>Properties of the trace\<close>

lemma visitCalls_append: "visitCalls (xs @ ys) st = visitCalls ys (visitCalls xs st)"
  by (induction xs st rule: visitCalls.induct) auto

lemma visitTypesState_append:
  "visitTypesState ctx =
     visitCalls (rootCalls (schema ctx) @ directiveCalls (schema ctx)) ({}, flagTypes ctx)"
  by (simp add: visitTypesState_def Let_def visitCalls_append)

lemma markedBy_simps [simp]:
  "markedBy [] = []"
  "markedBy ((c, True) # tr) = c # markedBy tr"
  "markedBy ((c, False) # tr) = markedBy tr"
  "markedBy (tr @ tr') = markedBy tr @ markedBy tr'"
  by (simp_all add: markedBy_def)

lemma marked_names:
  "set (map callName (markedBy (visitTrace cs st))) = fst (visitCalls cs st) - fst st
   \<and> distinct (map callName (markedBy (visitTrace cs st)))"
proof (induction cs st rule: visitTrace.induct)
  case (1 st)
  then show ?case by simp
next
  case (2 c cs st)
  show ?case
  proof (cases "callName c \<in> fst st")
    case True
    with 2 show ?thesis by simp
  next
    case False
    let ?st1 = "mark (callName c) st"
    let ?st2 = "visitCalls (bodyCalls (snd st) c) ?st1"
    have m1: "fst ?st1 \<subseteq> fst ?st2" and m2: "fst ?st2 \<subseteq> fst (visitCalls cs ?st2)"
      by (rule visitCalls_mono)+
    from 2(2) [OF False]
    have a: "set (map callName (markedBy (visitTrace (bodyCalls (snd st) c) ?st1))) = fst ?st2 - fst ?st1"
      and da: "distinct (map callName (markedBy (visitTrace (bodyCalls (snd st) c) ?st1)))"
      by simp_all
    from 2(3) [OF False]
    have b: "set (map callName (markedBy (visitTrace cs ?st2))) = fst (visitCalls cs ?st2) - fst ?st2"
      and db: "distinct (map callName (markedBy (visitTrace cs ?st2)))"
      by simp_all
    have st1: "fst ?st1 = insert (callName c) (fst st)"
      by simp
    from False a b da db m1 m2 st1 show ?thesis
      by (auto simp del: mark_simps)
  qed
qed

lemma distinct_names_disjoint:
  assumes "distinct (map callName cs)"
  shows "outputNames cs \<inter> inputNames cs = {}"
proof (rule ccontr)
  assume "outputNames cs \<inter> inputNames cs \<noteq> {}"
  then obtain c c' where "c \<in> set cs" "c' \<in> set cs" "isOutputCall c" "\<not> isOutputCall c'"
    "callName c = callName c'"
    by (auto simp: outputNames_def inputNames_def)
  moreover from assms have "inj_on callName (set cs)"
    by (simp add: distinct_map)
  ultimately show False
    by (auto dest: inj_onD)
qed

section \<open>The marker visits the reachable names\<close>

lemma outputCalls_iff:
  "c \<in> set (outputCalls ctx t) \<longleftrightarrow>
     ((isObjectType t \<or> isInterfaceType t)
        \<and> (\<exists>f \<in> set (getFields t).
              c = VisitOutputType (fieldType f) \<or> (\<exists>a \<in> set (fieldArgs f). c = VisitInputType a)))
     \<or> (isInterfaceType t
          \<and> (\<exists>impls. getImplementations ctx t = Some impls \<and> c \<in> VisitOutputType ` set impls))
     \<or> (\<exists>ifaces. getInterfaces t = Some ifaces \<and> c \<in> VisitOutputType ` set ifaces)
     \<or> (isUnionType t \<and> c \<in> VisitOutputType ` set (getTypes t))"
proof (cases "getImplementations ctx t")
  case None
  then show ?thesis
    by (cases t) (auto simp: outputCalls_def split: option.splits)
next
  case (Some impls)
  then show ?thesis
    by (cases t) (auto simp: outputCalls_def split: option.splits)
qed

lemma inputCalls_iff:
  "c \<in> set (inputCalls t) \<longleftrightarrow>
     isInputObjectType t \<and> (\<exists>f \<in> set (getInputFields t). c = VisitInputType (inputFieldType f))"
  by (cases t) (auto simp: inputCalls_def)

lemma kindCalls_cong:
  "schema c1 = schema c2 \<Longrightarrow> implementations c1 = implementations c2 \<Longrightarrow>
     kindCalls c1 n = kindCalls c2 n"
  by (simp add: kindCalls_def outputCalls_cong [of c1 c2] split: option.splits)

lemma bodyCalls_wellPlaced:
  "wellPlaced (schema ctx) c \<Longrightarrow> bodyCalls ctx c = kindCalls ctx (callName c)"
proof (cases c)
  case (VisitOutputType n)
  assume "wellPlaced (schema ctx) c"
  with VisitOutputType show ?thesis
    by (auto simp: kindCalls_def outputKind_def inputCalls_def split: option.splits)
next
  case (VisitInputType n)
  assume "wellPlaced (schema ctx) c"
  with VisitInputType show ?thesis
    by (auto simp: kindCalls_def inputKind_def outputCalls_def split: option.splits)
qed

lemma visitCalls_closed:
  assumes wk: "\<And>n c. c \<in> set (kindCalls ctx0 n) \<Longrightarrow> wellPlaced (schema ctx0) c"
  shows "schema (snd st) = schema ctx0 \<Longrightarrow> implementations (snd st) = implementations ctx0 \<Longrightarrow>
     (\<forall>c \<in> set cs. wellPlaced (schema ctx0) c) \<Longrightarrow>
     callName ` set cs \<subseteq> fst (visitCalls cs st)
     \<and> (\<forall>n \<in> fst (visitCalls cs st) - fst st.
           callName ` set (kindCalls ctx0 n) \<subseteq> fst (visitCalls cs st))"
proof (induction cs st rule: visitCalls.induct)
  case (1 st)
  then show ?case by simp
next
  case (2 c cs st)
  have same: "kindCalls (snd st) n = kindCalls ctx0 n" for n
    by (rule kindCalls_cong) (use 2 in simp_all)
  from 2 have wc: "wellPlaced (schema ctx0) c" and wcs: "\<forall>c \<in> set cs. wellPlaced (schema ctx0) c"
    by simp_all
  show ?case
  proof (cases "callName c \<in> fst st")
    case True
    from 2(1) [OF True 2(4) 2(5) wcs] True
    have "callName ` set cs \<subseteq> fst (visitCalls cs st)"
      and "\<forall>n \<in> fst (visitCalls cs st) - fst st.
           callName ` set (kindCalls ctx0 n) \<subseteq> fst (visitCalls cs st)"
      by simp_all
    moreover have "fst st \<subseteq> fst (visitCalls cs st)"
      by (rule visitCalls_mono)
    ultimately show ?thesis
      using True by auto
  next
    case False
    let ?body = "bodyCalls (snd st) c"
    let ?st1 = "mark (callName c) st"
    let ?st2 = "visitCalls ?body ?st1"
    let ?st3 = "visitCalls cs ?st2"
    have body: "?body = kindCalls ctx0 (callName c)"
      using bodyCalls_wellPlaced [of "snd st" c] wc 2(4) same by simp
    have wbody: "\<forall>c' \<in> set ?body. wellPlaced (schema ctx0) c'"
      using wk body by simp
    have s1: "schema (snd ?st1) = schema ctx0" "implementations (snd ?st1) = implementations ctx0"
      using 2(4,5) by simp_all
    have s2: "schema (snd ?st2) = schema ctx0" "implementations (snd ?st2) = implementations ctx0"
      using s1 by simp_all
    from 2(2) [OF False s1 wbody]
    have b1: "callName ` set ?body \<subseteq> fst ?st2"
      and c1: "\<forall>n \<in> fst ?st2 - fst ?st1. callName ` set (kindCalls ctx0 n) \<subseteq> fst ?st2"
      by simp_all
    from 2(3) [OF False s2 wcs]
    have b2: "callName ` set cs \<subseteq> fst ?st3"
      and c2: "\<forall>n \<in> fst ?st3 - fst ?st2. callName ` set (kindCalls ctx0 n) \<subseteq> fst ?st3"
      by simp_all
    have m1: "fst ?st1 \<subseteq> fst ?st2" and m2: "fst ?st2 \<subseteq> fst ?st3"
      by (rule visitCalls_mono)+
    have f1: "fst ?st1 = insert (callName c) (fst st)"
      by simp
    have res: "visitCalls (c # cs) st = ?st3"
      using False by simp
    have "callName ` set (c # cs) \<subseteq> fst ?st3"
      using b2 m1 m2 f1 by auto
    moreover have "callName ` set (kindCalls ctx0 n) \<subseteq> fst ?st3" if "n \<in> fst ?st3 - fst st" for n
    proof (cases "n = callName c")
      case True
      with b1 body m2 show ?thesis by auto
    next
      case False
      show ?thesis
      proof (cases "n \<in> fst ?st2")
        case True
        with \<open>n \<noteq> callName c\<close> that f1 have "n \<in> fst ?st2 - fst ?st1" by auto
        with c1 m2 show ?thesis by blast
      next
        case False
        with that have "n \<in> fst ?st3 - fst ?st2" by auto
        with c2 show ?thesis by blast
      qed
    qed
    ultimately show ?thesis
      unfolding res by blast
  qed
qed


lemma declares_outputKind: "declares s m iface \<Longrightarrow> outputKind s m"
  by (auto simp: declares_def outputKind_def split: option.splits elim: isInputObjectType.elims)

lemma index_member:
  "implementations (createPruningContext s) n = Some impls \<Longrightarrow> set impls = implementers s n"
  using index_keys [of s n] by (simp add: keysOf_def)

lemma wellKinded_kindCalls:
  assumes "wellKinded s" and "c \<in> set (kindCalls (createPruningContext s) n)"
  shows "wellPlaced s c"
proof -
  from assms(2) obtain t where t: "getType s n = Some t"
    and c: "c \<in> set (outputCalls (createPruningContext s) t) \<union> set (inputCalls t)"
    by (cases "getType s n") (auto simp: kindCalls_def)
  from t have tm: "t \<in> set (typeMap s)" and tn: "typeName t = n"
    by (auto dest: getType_in_typeMap)
  from assms(1) tm
  have fld: "\<forall>f \<in> set (getFields t).
               outputKind s (fieldType f) \<and> (\<forall>a \<in> set (fieldArgs f). inputKind s a)"
    and ifc: "\<forall>i \<in> set (case getInterfaces t of None \<Rightarrow> [] | Some ifaces \<Rightarrow> ifaces). outputKind s i"
    and mem: "\<forall>m \<in> set (getTypes t). outputKind s m"
    and inp: "\<forall>f \<in> set (getInputFields t). inputKind s (inputFieldType f)"
    by (simp_all add: wellKinded_def)
  have imp: "outputKind s m"
    if "implementations (createPruningContext s) (typeName t) = Some impls" "m \<in> set impls"
    for impls m
    using that index_member [of s "typeName t" impls] declares_outputKind [of s m "typeName t"]
    by (auto simp: implementers_def)
  from c show ?thesis
  proof
    assume "c \<in> set (outputCalls (createPruningContext s) t)"
    with fld ifc mem imp show ?thesis
      by (auto simp: outputCalls_iff getImplementations_def)
  next
    assume "c \<in> set (inputCalls t)"
    with inp show ?thesis
      by (auto simp: inputCalls_iff)
  qed
qed

lemma wellKinded_seeds:
  "wellKinded s \<Longrightarrow> c \<in> set (rootCalls s @ directiveCalls s) \<Longrightarrow> wellPlaced s c"
  by (auto simp: wellKinded_def rootCalls_def directiveCalls_def)

lemma visited_closed:
  assumes "wellKinded s"
  shows "callName ` set (rootCalls s @ directiveCalls s)
           \<subseteq> fst (visitTypesState (createPruningContext s))
         \<and> (\<forall>n \<in> fst (visitTypesState (createPruningContext s)).
               callName ` set (kindCalls (createPruningContext s) n)
                 \<subseteq> fst (visitTypesState (createPruningContext s)))"
proof -
  let ?ctx = "createPruningContext s"
  have wk: "\<And>n c. c \<in> set (kindCalls ?ctx n) \<Longrightarrow> wellPlaced (schema ?ctx) c"
    using wellKinded_kindCalls [OF assms] by simp
  have seeds: "\<forall>c \<in> set (rootCalls s @ directiveCalls s). wellPlaced (schema ?ctx) c"
    using wellKinded_seeds [OF assms] by simp
  have h1: "schema (snd ({}, flagTypes ?ctx)) = schema ?ctx"
    and h2: "implementations (snd ({}, flagTypes ?ctx)) = implementations ?ctx"
    by simp_all
  from visitCalls_closed [where ?ctx0.0 = ?ctx, OF wk h1 h2 seeds]
  show ?thesis
    by (simp add: visitTypesState_append)
qed

lemma body_fieldType:
  "getType s n = Some t \<Longrightarrow> isObjectType t \<or> isInterfaceType t \<Longrightarrow> f \<in> set (getFields t) \<Longrightarrow>
     VisitOutputType (fieldType f) \<in> set (bodyCalls (createPruningContext s) (VisitOutputType n))"
  by (auto simp: outputCalls_iff)

lemma body_fieldArgument:
  "getType s n = Some t \<Longrightarrow> isObjectType t \<or> isInterfaceType t \<Longrightarrow> f \<in> set (getFields t) \<Longrightarrow>
     a \<in> set (fieldArgs f) \<Longrightarrow>
     VisitInputType a \<in> set (bodyCalls (createPruningContext s) (VisitOutputType n))"
  by (auto simp: outputCalls_iff)

lemma body_implementer:
  assumes "getType s n = Some t" and "isInterfaceType t" and "m \<in> implementers s n"
  shows "VisitOutputType m \<in> set (bodyCalls (createPruningContext s) (VisitOutputType n))"
proof -
  from assms(1) have tn: "typeName t = n"
    by (rule getType_typeName)
  from assms(3) have "implementations (createPruningContext s) n \<noteq> None"
    by (auto simp: index_None)
  then obtain impls where i: "implementations (createPruningContext s) n = Some impls"
    by blast
  with assms(3) index_member [OF i] have "m \<in> set impls"
    by simp
  with assms(1,2) i tn show ?thesis
    by (auto simp: outputCalls_iff getImplementations_def)
qed

lemma body_implemented:
  assumes "getType s n = Some t" and "getInterfaces t = Some ifaces" and "i \<in> set ifaces"
  shows "VisitOutputType i \<in> set (bodyCalls (createPruningContext s) (VisitOutputType n))"
proof -
  from assms(2) have "isObjectType t \<or> isInterfaceType t"
    by (cases t) simp_all
  with assms show ?thesis
    by (auto simp: outputCalls_iff)
qed

lemma body_member:
  "getType s n = Some t \<Longrightarrow> isUnionType t \<Longrightarrow> m \<in> set (getTypes t) \<Longrightarrow>
     VisitOutputType m \<in> set (bodyCalls (createPruningContext s) (VisitOutputType n))"
  by (auto simp: outputCalls_iff)

lemma body_inputFieldType:
  "getType s n = Some t \<Longrightarrow> isInputObjectType t \<Longrightarrow> f \<in> set (getInputFields t) \<Longrightarrow>
     VisitInputType (inputFieldType f) \<in> set (bodyCalls (createPruningContext s) (VisitInputType n))"
  by (auto simp: inputCalls_iff)

lemma reach_by_calls [consumes 1, case_names seed body]:
  assumes "reach s c"
    and seed: "\<And>c. c \<in> set (rootCalls s @ directiveCalls s) \<Longrightarrow> P c"
    and body: "\<And>c c'. reach s c \<Longrightarrow> P c \<Longrightarrow> c' \<in> set (bodyCalls (createPruningContext s) c) \<Longrightarrow> P c'"
  shows "P c"
  using assms(1)
proof (induction rule: reach.induct)
  case (root n)
  then show ?case by (intro seed) (simp add: rootCalls_def)
next
  case (directiveArgument d a)
  then show ?case by (intro seed) (auto simp: directiveCalls_def)
next
  case (fieldType n t f)
  from fieldType(1,5) body_fieldType [OF fieldType(2,3,4)] show ?case by (rule body)
next
  case (fieldArgument n t f a)
  from fieldArgument(1,6) body_fieldArgument [OF fieldArgument(2,3,4,5)] show ?case by (rule body)
next
  case (implementer n t m)
  from implementer(1,5) body_implementer [OF implementer(2,3,4)] show ?case by (rule body)
next
  case (implemented n t ifaces i)
  from implemented(1,5) body_implemented [OF implemented(2,3,4)] show ?case by (rule body)
next
  case (member n t m)
  from member(1,5) body_member [OF member(2,3,4)] show ?case by (rule body)
next
  case (inputFieldType n t f)
  from inputFieldType(1,5) body_inputFieldType [OF inputFieldType(2,3,4)] show ?case by (rule body)
qed

lemma reach_visited:
  assumes "wellKinded s" and "reach s c"
  shows "wellPlaced s c \<and> callName c \<in> fst (visitTypesState (createPruningContext s))"
  using assms(2)
proof (induction rule: reach_by_calls)
  case (seed c)
  then show ?case
    using wellKinded_seeds [OF assms(1)] visited_closed [OF assms(1)] by blast
next
  case (body c c')
  then have "c' \<in> set (kindCalls (createPruningContext s) (callName c))"
    using bodyCalls_wellPlaced [of "createPruningContext s" c] by simp
  with body show ?case
    using wellKinded_kindCalls [OF assms(1)] visited_closed [OF assms(1)] by blast
qed


lemma bodyCalls_reach:
  assumes "reach s c" and "c' \<in> set (bodyCalls (createPruningContext s) c)"
  shows "reach s c'"
proof (cases c)
  case (VisitOutputType n)
  with assms(2) obtain t where t: "getType s n = Some t"
    and c': "c' \<in> set (outputCalls (createPruningContext s) t)"
    by (cases "getType s n") auto
  from t have tn: "typeName t = n"
    by (rule getType_typeName)
  from assms(1) VisitOutputType have r: "reach s (VisitOutputType n)"
    by simp
  from c' consider
      (field) f where "isObjectType t \<or> isInterfaceType t" "f \<in> set (getFields t)"
        "c' = VisitOutputType (fieldType f)"
    | (arg) f a where "isObjectType t \<or> isInterfaceType t" "f \<in> set (getFields t)"
        "a \<in> set (fieldArgs f)" "c' = VisitInputType a"
    | (impl) impls m where "isInterfaceType t"
        "getImplementations (createPruningContext s) t = Some impls" "m \<in> set impls"
        "c' = VisitOutputType m"
    | (iface) ifaces i where "getInterfaces t = Some ifaces" "i \<in> set ifaces"
        "c' = VisitOutputType i"
    | (mem) m where "isUnionType t" "m \<in> set (getTypes t)" "c' = VisitOutputType m"
    unfolding outputCalls_iff by blast
  then show ?thesis
  proof cases
    case field
    with r t show ?thesis by (auto intro: reach.fieldType)
  next
    case arg
    with r t show ?thesis by (auto intro: reach.fieldArgument)
  next
    case impl
    from impl(2,3) tn have "m \<in> implementers s n"
      using index_member [of s n impls] by (simp add: getImplementations_def)
    with r t impl show ?thesis by (auto intro: reach.implementer)
  next
    case iface
    with r t show ?thesis by (auto intro: reach.implemented)
  next
    case mem
    with r t show ?thesis by (auto intro: reach.member)
  qed
next
  case (VisitInputType n)
  with assms(2) obtain t where t: "getType s n = Some t" and c': "c' \<in> set (inputCalls t)"
    by (cases "getType s n") auto
  from assms(1) VisitInputType have r: "reach s (VisitInputType n)"
    by simp
  from c' r t show ?thesis
    by (auto simp: inputCalls_iff intro: reach.inputFieldType)
qed

lemma seeds_reach: "c \<in> set (rootCalls s @ directiveCalls s) \<Longrightarrow> reach s c"
  by (auto simp: rootCalls_def directiveCalls_def intro: reach.root reach.directiveArgument)

lemma visitCalls_sound:
  "schema (snd st) = s \<Longrightarrow> implementations (snd st) = implementations (createPruningContext s) \<Longrightarrow>
     (\<forall>c \<in> set cs. reach s c) \<Longrightarrow>
     (\<forall>n \<in> fst (visitCalls cs st) - fst st. \<exists>c. reach s c \<and> callName c = n)"
proof (induction cs st rule: visitCalls.induct)
  case (1 st)
  then show ?case by simp
next
  case (2 c cs st)
  from 2 have rc: "reach s c" and rcs: "\<forall>c \<in> set cs. reach s c"
    by simp_all
  show ?case
  proof (cases "callName c \<in> fst st")
    case True
    with 2(1) [OF True 2(4) 2(5) rcs] show ?thesis by simp
  next
    case False
    let ?body = "bodyCalls (snd st) c"
    let ?st1 = "mark (callName c) st"
    let ?st2 = "visitCalls ?body ?st1"
    let ?st3 = "visitCalls cs ?st2"
    have "outputCalls (snd st) t = outputCalls (createPruningContext s) t" for t
      by (rule outputCalls_cong) (use 2(5) in simp)
    then have "?body = bodyCalls (createPruningContext s) c"
      using 2(4) by (cases c) (simp_all split: option.splits)
    with rc have rbody: "\<forall>c' \<in> set ?body. reach s c'"
      using bodyCalls_reach by simp
    have s1: "schema (snd ?st1) = s" "implementations (snd ?st1) = implementations (createPruningContext s)"
      using 2(4,5) by simp_all
    have s2: "schema (snd ?st2) = s" "implementations (snd ?st2) = implementations (createPruningContext s)"
      using s1 by simp_all
    note a = 2(2) [OF False s1 rbody]
    note b = 2(3) [OF False s2 rcs]
    have f1: "fst ?st1 = insert (callName c) (fst st)"
      by simp
    have res: "visitCalls (c # cs) st = ?st3"
      using False by simp
    show ?thesis
      unfolding res
    proof
      fix n assume n: "n \<in> fst ?st3 - fst st"
      show "\<exists>c. reach s c \<and> callName c = n"
      proof (cases "n = callName c")
        case True
        with rc show ?thesis by blast
      next
        case False
        show ?thesis
        proof (cases "n \<in> fst ?st2")
          case True
          with False n f1 have "n \<in> fst ?st2 - fst ?st1" by auto
          with a show ?thesis by blast
        next
          case False
          with n have "n \<in> fst ?st3 - fst ?st2" by auto
          with b show ?thesis by blast
        qed
      qed
    qed
  qed
qed

lemma visited_reach:
  assumes "n \<in> fst (visitTypesState (createPruningContext s))"
  shows "\<exists>c. reach s c \<and> callName c = n"
proof -
  let ?ctx = "createPruningContext s"
  have h1: "schema (snd ({}, flagTypes ?ctx)) = s"
    and h2: "implementations (snd ({}, flagTypes ?ctx)) = implementations ?ctx"
    by simp_all
  have h3: "\<forall>c \<in> set (rootCalls s @ directiveCalls s). reach s c"
    using seeds_reach by blast
  from visitCalls_sound [OF h1 h2 h3] assms show ?thesis
    by (simp add: visitTypesState_append)
qed

section \<open>A bound on the marks of a pass\<close>

lemma visitCalls_within:
  "fst (visitCalls cs st)
     \<subseteq> fst st \<union> callName ` set cs \<union> callName ` set (allCalls (snd st))"
proof (induction cs st rule: visitCalls.induct)
  case (1 st)
  then show ?case by simp
next
  case (2 c cs st)
  show ?case
  proof (cases "callName c \<in> fst st")
    case True
    with 2(1) show ?thesis by auto
  next
    case False
    let ?st1 = "mark (callName c) st"
    let ?st2 = "visitCalls (bodyCalls (snd st) c) ?st1"
    have a1: "allCalls (snd ?st1) = allCalls (snd st)"
      by (rule allCalls_cong) simp_all
    have a2: "allCalls (snd ?st2) = allCalls (snd st)"
      by (rule allCalls_cong) simp_all
    have f1: "fst ?st1 = insert (callName c) (fst st)"
      by simp
    from 2(2) [OF False] a1 f1 bodyCalls_subset [of "snd st" c]
    have b: "fst ?st2 \<subseteq> insert (callName c) (fst st) \<union> callName ` set (allCalls (snd st))"
      by (auto simp del: mark_simps)
    from 2(3) [OF False] a2
    have "fst (visitCalls cs ?st2) \<subseteq> fst ?st2 \<union> callName ` set cs \<union> callName ` set (allCalls (snd st))"
      by simp
    with b False show ?thesis
      by auto
  qed
qed

lemma marks_bounded:
  "length (markedBy (markingTrace s))
     \<le> length (rootCalls s @ directiveCalls s @ allCalls (createPruningContext s))"
proof -
  let ?st0 = "({}, flagTypes (createPruningContext s)) :: string set \<times> pruningContext"
  let ?cs = "rootCalls s @ directiveCalls s"
  have ac: "allCalls (snd ?st0) = allCalls (createPruningContext s)"
    by (rule allCalls_cong) simp_all
  from marked_names [of ?cs ?st0]
  have set_eq: "set (map callName (markedBy (markingTrace s))) = fst (visitCalls ?cs ?st0)"
    and dist: "distinct (map callName (markedBy (markingTrace s)))"
    by (simp_all add: markingTrace_def)
  have "length (markedBy (markingTrace s)) = card (set (map callName (markedBy (markingTrace s))))"
    using dist distinct_card [of "map callName (markedBy (markingTrace s))"] by simp
  also have "\<dots> = card (fst (visitCalls ?cs ?st0))"
    by (simp only: set_eq)
  also have "\<dots> \<le> card (callName ` set (?cs @ allCalls (createPruningContext s)))"
  proof (rule card_mono)
    show "finite (callName ` set (?cs @ allCalls (createPruningContext s)))"
      by simp
    show "fst (visitCalls ?cs ?st0) \<subseteq> callName ` set (?cs @ allCalls (createPruningContext s))"
      using visitCalls_within [of ?cs ?st0] ac by auto
  qed
  also have "\<dots> \<le> card (set (?cs @ allCalls (createPruningContext s)))"
    by (rule card_image_le) simp
  also have "\<dots> \<le> length (?cs @ allCalls (createPruningContext s))"
    by (rule card_length)
  finally show ?thesis by simp
qed

section \<open>The claims\<close>

text \<open>
  C1 (as amended). In a graph whose references respect the kinds of GraphQL (no input
  object in an output position, no object, interface or union in an input position), the
  names that the marker visits are those reachable from the root types and the directive
  arguments by the traversal rules. A reachable type is marked used, and no pass selects
  it by the unused-type rule or the unimplemented-interface rule, whatever the options: it
  is in the removal set only as an object, input object or interface without fields or as
  a union without members, under the rules for empty types.
\<close>

theorem reachable_type_pruned_only_when_empty:
  assumes "wellKinded s" and "reach s c"
  shows "callName c \<in> fst (visitTypesState (createPruningContext s))
         \<and> unusedTypes (visitTypes (createPruningContext s)) (callName c) = Some False
         \<and> callName c \<notin> prunedBy Unused options s
         \<and> callName c \<notin> prunedBy Unimplemented options s
         \<and> (callName c \<in> typesToPrune options s \<longrightarrow>
               callName c \<in> prunedBy EmptyComposite options s \<union> prunedBy EmptyUnion options s)
         \<and> (\<forall>n \<in> fst (visitTypesState (createPruningContext s)). \<exists>c'. reach s c' \<and> callName c' = n)"
proof -
  let ?n = "callName c"
  from reach_visited [OF assms] have v: "?n \<in> fst (visitTypesState (createPruningContext s))"
    by simp
  then have u: "unusedTypes (visitTypes (createPruningContext s)) ?n = Some False"
    by (simp add: visitTypes_unused)
  then have nu: "?n \<notin> prunedBy Unused options s"
    by (auto simp: prunedBy_iff unusedRule_def)
  have ni: "?n \<notin> prunedBy Unimplemented options s"
    by (auto simp: prunedBy_iff unimplementedRule_never)
  have "?n \<in> prunedBy EmptyComposite options s \<union> prunedBy EmptyUnion options s"
    if "?n \<in> typesToPrune options s"
  proof -
    from that obtain r where r: "?n \<in> prunedBy r options s"
      by (auto simp: typesToPrune_by_rule)
    with nu ni show ?thesis
      by (cases r) simp_all
  qed
  with v u nu ni show ?thesis
    using visited_reach [of _ s] by blast
qed

theorem reachable_type_pruned_only_when_empty_witness:
  "wellKinded emptyUnionSchema
   \<and> reach emptyUnionSchema (VisitOutputType ''U'')
   \<and> ''U'' \<in> typesToPrune defaultOptions emptyUnionSchema
   \<and> ''U'' \<in> prunedBy EmptyUnion defaultOptions emptyUnionSchema
   \<and> unusedTypes (visitTypes (createPruningContext emptyUnionSchema)) ''U'' = Some False"
proof -
  have w: "wellKinded emptyUnionSchema"
    by code_simp
  have q: "reach emptyUnionSchema (VisitOutputType ''Query'')"
    by (rule reach.root) (simp add: emptyUnionSchema_def)
  have r: "reach emptyUnionSchema (VisitOutputType ''U'')"
    using reach.fieldType [OF q,
        of "GraphQLObjectType ''Query''
              [stringField ''a'', \<lparr> fieldName = ''u'', fieldType = ''U'', fieldArgs = [] \<rparr>] []"
           "\<lparr> fieldName = ''u'', fieldType = ''U'', fieldArgs = [] \<rparr>"]
    by (simp add: emptyUnionSchema_def getType_def)
  have p: "''U'' \<in> typesToPrune defaultOptions emptyUnionSchema"
    by code_simp
  have c: "''U'' \<notin> prunedBy EmptyComposite defaultOptions emptyUnionSchema"
    by code_simp
  from reachable_type_pruned_only_when_empty [OF w r, of defaultOptions] p c w r
  show ?thesis by simp
qed

text \<open>
  C1 as stated fails: a reachable type is placed in the removal set when it is
  empty. Below, the object type \<open>Empty\<close> is the type of a field of the query root, so it is
  reachable and marked used, and it has no field; with the default options the first pass
  selects it.
\<close>

theorem reachable_empty_type_is_pruned:
  "wellKinded emptyFieldTypeSchema
   \<and> reach emptyFieldTypeSchema (VisitOutputType ''Empty'')
   \<and> unusedTypes (visitTypes (createPruningContext emptyFieldTypeSchema)) ''Empty'' = Some False
   \<and> ''Empty'' \<in> typesToPrune defaultOptions emptyFieldTypeSchema"
proof -
  have w: "wellKinded emptyFieldTypeSchema"
    by code_simp
  have q: "reach emptyFieldTypeSchema (VisitOutputType ''Query'')"
    by (rule reach.root) (simp add: emptyFieldTypeSchema_def)
  have r: "reach emptyFieldTypeSchema (VisitOutputType ''Empty'')"
    using reach.fieldType [OF q,
        of "GraphQLObjectType ''Query''
              [stringField ''a'', \<lparr> fieldName = ''e'', fieldType = ''Empty'', fieldArgs = [] \<rparr>] []"
           "\<lparr> fieldName = ''e'', fieldType = ''Empty'', fieldArgs = [] \<rparr>"]
    by (simp add: emptyFieldTypeSchema_def getType_def)
  have u: "unusedTypes (visitTypes (createPruningContext emptyFieldTypeSchema)) ''Empty'' = Some False"
    by code_simp
  have p: "''Empty'' \<in> typesToPrune defaultOptions emptyFieldTypeSchema"
    by code_simp
  from w r u p show ?thesis by simp
qed

text \<open>
  C2. An interface that no type implements is to be removed by \<^verbatim>\<open>pruneSchema\<close> unless
  \<^verbatim>\<open>skipUnimplementedInterfacesPruning\<close> is set. The selector has the rule for it, but the rule
  asks for an index entry that is present and empty, and the index never has one: an
  interface without implementers has no entry. On the graph below, where a field of the
  query root has the interface type \<open>Named\<close> that nothing implements, the pass with the default
  options selects nothing, and \<open>Named\<close> stays.
\<close>

theorem unimplemented_interface_kept_by_default:
  "getType unimplementedInterfaceSchema ''Named''
     = Some (GraphQLInterfaceType ''Named'' [stringField ''x''] [])
   \<and> implementers unimplementedInterfaceSchema ''Named'' = {}
   \<and> implementations (createPruningContext unimplementedInterfaceSchema) ''Named'' = None
   \<and> \<not> skipUnimplementedInterfacesPruning defaultOptions
   \<and> ''Named'' \<notin> typesToPrune defaultOptions unimplementedInterfaceSchema
   \<and> typesToPrune defaultOptions unimplementedInterfaceSchema = {}"
proof -
  have 1: "getType unimplementedInterfaceSchema ''Named''
     = Some (GraphQLInterfaceType ''Named'' [stringField ''x''] [])"
    by (simp add: getType_def unimplementedInterfaceSchema_def)
  have 2: "implementers unimplementedInterfaceSchema ''Named'' = {}"
    by (auto simp: implementers_def declares_def typeNames_def unimplementedInterfaceSchema_def
        getType_def)
  have 3: "implementations (createPruningContext unimplementedInterfaceSchema) ''Named'' = None"
    using 2 by (simp add: index_None)
  have 4: "\<not> skipUnimplementedInterfacesPruning defaultOptions"
    by (simp add: defaultOptions_def)
  have 5: "typesToPrune defaultOptions unimplementedInterfaceSchema = {}"
    by code_simp
  from 1 2 3 4 5 show ?thesis by simp
qed

text \<open>
  C3. After \<^verbatim>\<open>createPruningContext\<close> has built the index of a graph, an interface name has
  an entry exactly when some type of the graph declares that it implements it; an entry is
  never empty, and holds the names of the types that declare the interface. The marker
  leaves the index as it is, so this holds throughout the pass.
\<close>

theorem implementation_index_entry_iff:
  "(implementations (createPruningContext s) iface \<noteq> None
      \<longleftrightarrow> (\<exists>tn \<in> typeNames s. declares s tn iface))
   \<and> (\<forall>impls. implementations (createPruningContext s) iface = Some impls \<longrightarrow>
         impls \<noteq> [] \<and> set impls = implementers s iface)
   \<and> implementations (visitTypes (createPruningContext s)) iface
       = implementations (createPruningContext s) iface"
proof -
  have "implementations (createPruningContext s) iface \<noteq> None
      \<longleftrightarrow> (\<exists>tn \<in> typeNames s. declares s tn iface)"
    by (auto simp: index_None implementers_def)
  moreover have "impls \<noteq> [] \<and> set impls = implementers s iface"
    if "implementations (createPruningContext s) iface = Some impls" for impls
    using that index_nonempty [of s iface] index_keys [of s iface]
    by (auto simp: keysOf_def)
  ultimately show ?thesis by simp
qed

theorem implementation_index_entry_iff_witness:
  "implementations (createPruningContext interfaceSchema) ''Node'' = Some [''User'']
   \<and> declares interfaceSchema ''User'' ''Node''
   \<and> ''User'' \<in> typeNames interfaceSchema
   \<and> implementers interfaceSchema ''Node'' = {''User''}
   \<and> implementations (createPruningContext interfaceSchema) ''Query'' = None"
proof -
  have e: "implementations (createPruningContext interfaceSchema) ''Node'' = Some [''User'']"
    by code_simp
  have q: "implementations (createPruningContext interfaceSchema) ''Query'' = None"
    by code_simp
  have d: "declares interfaceSchema ''User'' ''Node''"
    by code_simp
  have n: "''User'' \<in> typeNames interfaceSchema"
    by code_simp
  from implementation_index_entry_iff [of interfaceSchema "''Node''"] e
  have "implementers interfaceSchema ''Node'' = {''User''}"
    by simp
  with e q d n show ?thesis by simp
qed

text \<open>
  C4. Under the spec's contract for the rebuild, \<^verbatim>\<open>pruneSchema\<close> returns a graph on which a
  second run with the same options returns a graph with the same type names (it returns
  the very same graph).
\<close>

theorem pruneSchema_idempotent:
  assumes "deletesNamed mapSchema" and "keepsUnpruned mapSchema"
  shows "\<exists>out. pruneSchema mapSchema options s = Some out
           \<and> (\<exists>out'. pruneSchema mapSchema options out = Some out'
                 \<and> typeNames out' = typeNames out)"
proof -
  from pruneSchema_converges [OF assms(1), of s options]
  obtain k where fin: "typesToPrune options ((pass mapSchema options ^^ k) s) = {}"
    and res: "pruneSchema mapSchema options s = Some ((pass mapSchema options ^^ Suc k) s)"
    by blast
  let ?g = "(pass mapSchema options ^^ k) s"
  from fin assms(2) have same: "pass mapSchema options ?g = ?g"
    by (simp add: pass_def keepsUnpruned_def)
  then have out: "(pass mapSchema options ^^ Suc k) s = ?g"
    by simp
  have "pruneSchema mapSchema options ?g = Some ?g"
    using fin same by (subst pruneSchema_unfold) simp
  with res out show ?thesis by simp
qed

theorem pruneSchema_idempotent_witness:
  "deletesNamed rebuildExcluding \<and> keepsUnpruned rebuildExcluding
   \<and> pruneSchema rebuildExcluding defaultOptions unusedObjectSchema
       = Some (rebuildExcluding unusedObjectSchema {''Unused''})
   \<and> (\<exists>out'. pruneSchema rebuildExcluding defaultOptions (rebuildExcluding unusedObjectSchema {''Unused''})
          = Some out'
        \<and> typeNames out' = typeNames (rebuildExcluding unusedObjectSchema {''Unused''}))"
proof -
  have r: "pruneSchema rebuildExcluding defaultOptions unusedObjectSchema
       = Some (rebuildExcluding unusedObjectSchema {''Unused''})"
    by code_simp
  from pruneSchema_idempotent [OF rebuildExcluding_deletesNamed rebuildExcluding_keepsUnpruned,
      of defaultOptions unusedObjectSchema] r
  show ?thesis
    by (simp add: rebuildExcluding_deletesNamed rebuildExcluding_keepsUnpruned)
qed

text \<open>
  C5. Under the spec's contract for the rebuild, \<^verbatim>\<open>pruneSchema\<close> returns a graph whose type
  names are among those of its input, and no number of passes of the loop yields a graph
  with a name that the input does not have.
\<close>

theorem pruneSchema_names_subset:
  assumes "deletesNamed mapSchema"
  shows "(\<exists>out. pruneSchema mapSchema options s = Some out \<and> typeNames out \<subseteq> typeNames s)
         \<and> (\<forall>k. typeNames ((pass mapSchema options ^^ k) s) \<subseteq> typeNames s)"
  using pruneSchema_converges [OF assms, of s options] pass_names_subset [OF assms]
  by metis

theorem pruneSchema_names_subset_witness:
  "deletesNamed rebuildExcluding
   \<and> pruneSchema rebuildExcluding defaultOptions unusedObjectSchema
       = Some (rebuildExcluding unusedObjectSchema {''Unused''})
   \<and> typeNames (rebuildExcluding unusedObjectSchema {''Unused''}) \<subseteq> typeNames unusedObjectSchema"
proof -
  have r: "pruneSchema rebuildExcluding defaultOptions unusedObjectSchema
       = Some (rebuildExcluding unusedObjectSchema {''Unused''})"
    by code_simp
  from pruneSchema_names_subset [OF rebuildExcluding_deletesNamed, of defaultOptions unusedObjectSchema] r
  show ?thesis
    by (simp add: rebuildExcluding_deletesNamed)
qed

text \<open>
  C6. Under the spec's contract for the rebuild, \<^verbatim>\<open>pruneSchema\<close> returns on every graph:
  after \<open>k\<close> passes that remove something, each leaving strictly fewer type names than it
  found, and one last pass that removes nothing, where \<open>k\<close> is at most the number of type
  names of the input. The traversal inside a pass is the total function \<open>visitCalls\<close>, whose
  termination on any graph, cyclic or not, is proved where it is defined; on any graph it
  marks a name at most once, so it marks no more names than the graph has seeds and
  references.
\<close>

theorem pruneSchema_terminates:
  assumes "deletesNamed mapSchema"
  shows "(\<exists>k \<le> card (typeNames s).
            pruneSchema mapSchema options s = Some ((pass mapSchema options ^^ Suc k) s)
            \<and> (\<forall>j < k. card (typeNames ((pass mapSchema options ^^ Suc j) s))
                          < card (typeNames ((pass mapSchema options ^^ j) s))))
         \<and> (\<forall>g. distinct (map callName (markedBy (markingTrace g)))
                \<and> length (markedBy (markingTrace g))
                    \<le> length (rootCalls g @ directiveCalls g @ allCalls (createPruningContext g)))"
proof -
  from pruneSchema_converges [OF assms, of s options]
  obtain k where k: "k \<le> card (typeNames s)"
    and non: "\<forall>j < k. typesToPrune options ((pass mapSchema options ^^ j) s) \<noteq> {}"
    and res: "pruneSchema mapSchema options s = Some ((pass mapSchema options ^^ Suc k) s)"
    by blast
  have "card (typeNames ((pass mapSchema options ^^ Suc j) s))
          < card (typeNames ((pass mapSchema options ^^ j) s))" if "j < k" for j
    using pass_card [OF assms, of options "(pass mapSchema options ^^ j) s"] non that
    by simp
  with k res have driver: "\<exists>k \<le> card (typeNames s).
            pruneSchema mapSchema options s = Some ((pass mapSchema options ^^ Suc k) s)
            \<and> (\<forall>j < k. card (typeNames ((pass mapSchema options ^^ Suc j) s))
                          < card (typeNames ((pass mapSchema options ^^ j) s)))"
    by blast
  have "distinct (map callName (markedBy (markingTrace g)))" for g
    using marked_names [of "rootCalls g @ directiveCalls g" "({}, flagTypes (createPruningContext g))"]
    by (simp add: markingTrace_def)
  with driver marks_bounded show ?thesis
    by blast
qed



theorem pruneSchema_terminates_witness:
  "deletesNamed rebuildExcluding
   \<and> (\<exists>k \<le> card (typeNames orphanedImplementerSchema).
         pruneSchema rebuildExcluding defaultOptions orphanedImplementerSchema
           = Some ((pass rebuildExcluding defaultOptions ^^ Suc k) orphanedImplementerSchema))
   \<and> pruneSchema rebuildExcluding defaultOptions orphanedImplementerSchema
       = Some (rebuildExcluding (rebuildExcluding orphanedImplementerSchema {''E''}) {''T''})
   \<and> markedBy (markingTrace orphanedImplementerSchema)
       = [VisitOutputType ''Query'', VisitOutputType ''String'', VisitOutputType ''E'',
          VisitOutputType ''T'']"
proof -
  have r: "pruneSchema rebuildExcluding defaultOptions orphanedImplementerSchema
       = Some (rebuildExcluding (rebuildExcluding orphanedImplementerSchema {''E''}) {''T''})"
    by code_simp
  have m: "markedBy (markingTrace orphanedImplementerSchema)
       = [VisitOutputType ''Query'', VisitOutputType ''String'', VisitOutputType ''E'',
          VisitOutputType ''T'']"
    by code_simp
  from pruneSchema_terminates [OF rebuildExcluding_deletesNamed, of orphanedImplementerSchema defaultOptions]
  have "\<exists>k \<le> card (typeNames orphanedImplementerSchema).
         pruneSchema rebuildExcluding defaultOptions orphanedImplementerSchema
           = Some ((pass rebuildExcluding defaultOptions ^^ Suc k) orphanedImplementerSchema)"
    by blast
  with r m rebuildExcluding_deletesNamed show ?thesis
    by simp
qed

text \<open>
  C7 (as amended). Within a pass the removal set is the union of what each of the four
  rules selects, and what a rule selects on a given graph depends on the options only
  through the flag that governs the rule and the \<^verbatim>\<open>skipPruning\<close> predicate: changing any other
  flag leaves it as it is.
\<close>

theorem rule_selection_independent_of_other_flags:
  "typesToPrune options s = (\<Union>r. prunedBy r options s)
   \<and> (governingFlag r options' = governingFlag r options \<and> skipPruning options' = skipPruning options
        \<longrightarrow> prunedBy r options' s = prunedBy r options s)"
proof -
  have "prunedBy r options' s = prunedBy r options s"
    if "governingFlag r options' = governingFlag r options"
      and "skipPruning options' = skipPruning options"
    using that ruleFires_cong [OF that(1)]
    by (simp add: prunedBy_def skipPruningHolds_def)
  then show ?thesis
    by (simp add: typesToPrune_by_rule)
qed

theorem rule_selection_independent_of_other_flags_witness:
  "governingFlag Unused (defaultOptions \<lparr> skipEmptyCompositeTypePruning := True \<rparr>)
     = governingFlag Unused defaultOptions
   \<and> skipPruning (defaultOptions \<lparr> skipEmptyCompositeTypePruning := True \<rparr>) = skipPruning defaultOptions
   \<and> prunedBy Unused (defaultOptions \<lparr> skipEmptyCompositeTypePruning := True \<rparr>) unusedObjectSchema
       = {''Unused''}
   \<and> prunedBy Unused defaultOptions unusedObjectSchema = {''Unused''}"
proof -
  let ?o = "defaultOptions \<lparr> skipEmptyCompositeTypePruning := True \<rparr>"
  have f: "governingFlag Unused ?o = governingFlag Unused defaultOptions"
    by (simp add: defaultOptions_def)
  have p: "skipPruning ?o = skipPruning defaultOptions"
    by (simp add: defaultOptions_def)
  have v: "prunedBy Unused defaultOptions unusedObjectSchema = {''Unused''}"
    by code_simp
  from rule_selection_independent_of_other_flags
         [of defaultOptions unusedObjectSchema Unused ?o] f p v
  show ?thesis by simp
qed

text \<open>
  C7 as stated, over a whole run, fails. In the graph below the interface \<open>E\<close> has no field and
  the object type \<open>T\<close> is reached only as its implementer. With the default options the
  first pass removes \<open>E\<close> as empty, and the second pass then removes \<open>T\<close> by the unused-type
  rule; with \<^verbatim>\<open>skipEmptyCompositeTypePruning\<close> set and nothing else changed, no pass removes
  anything and \<open>T\<close> stays.
\<close>

theorem flag_toggle_changes_unused_removals:
  "typesToPrune defaultOptions orphanedImplementerSchema = {''E''}
   \<and> prunedBy Unused defaultOptions (rebuildExcluding orphanedImplementerSchema {''E''}) = {''T''}
   \<and> pruneSchema rebuildExcluding defaultOptions orphanedImplementerSchema
       = Some (rebuildExcluding (rebuildExcluding orphanedImplementerSchema {''E''}) {''T''})
   \<and> typesToPrune (defaultOptions \<lparr> skipEmptyCompositeTypePruning := True \<rparr>)
        orphanedImplementerSchema = {}
   \<and> pruneSchema rebuildExcluding (defaultOptions \<lparr> skipEmptyCompositeTypePruning := True \<rparr>)
        orphanedImplementerSchema = Some orphanedImplementerSchema"
proof -
  let ?o = "defaultOptions \<lparr> skipEmptyCompositeTypePruning := True \<rparr>"
  have 1: "typesToPrune defaultOptions orphanedImplementerSchema = {''E''}"
    by code_simp
  have 2: "prunedBy Unused defaultOptions (rebuildExcluding orphanedImplementerSchema {''E''}) = {''T''}"
    by code_simp
  have 3: "pruneSchema rebuildExcluding defaultOptions orphanedImplementerSchema
       = Some (rebuildExcluding (rebuildExcluding orphanedImplementerSchema {''E''}) {''T''})"
    by code_simp
  have 4: "typesToPrune ?o orphanedImplementerSchema = {}"
    by code_simp
  have 5: "pruneSchema rebuildExcluding ?o orphanedImplementerSchema = Some orphanedImplementerSchema"
    by (subst pruneSchema.simps) (simp add: 4 rebuildExcluding_empty)
  from 1 2 3 4 5 show ?thesis by blast
qed

text \<open>
  C8. A type whose name starts with \<^verbatim>\<open>__\<close> is in the removal set of no pass, whatever the
  graph and the options, and the marker never flags it as unused.
\<close>

theorem introspection_types_never_pruned:
  "startsWith n ''__'' \<Longrightarrow>
     n \<notin> typesToPrune options s
     \<and> unusedTypes (visitTypes (createPruningContext s)) n \<noteq> Some True"
  by (simp add: typesToPrune_iff visitTypes_unused)

theorem introspection_types_never_pruned_witness:
  "startsWith ''__Hidden'' ''__''
   \<and> ''__Hidden'' \<in> typeNames unusedObjectSchema
   \<and> ''__Hidden'' \<notin> fst (visitTypesState (createPruningContext unusedObjectSchema))
   \<and> ''__Hidden'' \<notin> typesToPrune defaultOptions unusedObjectSchema
   \<and> unusedTypes (visitTypes (createPruningContext unusedObjectSchema)) ''__Hidden'' \<noteq> Some True"
proof -
  have p: "startsWith ''__Hidden'' ''__''"
    by (simp add: startsWith_def)
  have t: "''__Hidden'' \<in> typeNames unusedObjectSchema"
    by code_simp
  have v: "''__Hidden'' \<notin> fst (visitTypesState (createPruningContext unusedObjectSchema))"
    by code_simp
  from introspection_types_never_pruned [OF p, of defaultOptions unusedObjectSchema] p t v
  show ?thesis by simp
qed

text \<open>
  C9. When a \<^verbatim>\<open>skipPruning\<close> predicate is supplied, a type of the type map on which it
  returns true is in the removal set of no pass, whatever the category rules say of it
  (the type map has one type per name).
\<close>

theorem skipPruning_exempts_type:
  assumes "skipPruning options = Some p" and "p t"
    and "t \<in> set (typeMap s)" and "distinct (map typeName (typeMap s))"
  shows "typeName t \<notin> typesToPrune options s"
proof
  assume "typeName t \<in> typesToPrune options s"
  then obtain t' where t': "t' \<in> set (typeMap s)" "typeName t' = typeName t"
    and ns: "\<not> skipPruningHolds options t'"
    by (auto simp: typesToPrune_iff)
  from assms(4) t'(1) assms(3) t'(2) have "t' = t"
    by (rule distinct_typeName_eq)
  with ns assms(1,2) show False
    by (simp add: skipPruningHolds_def)
qed

theorem skipPruning_exempts_type_witness:
  "''Unused'' \<in> typesToPrune defaultOptions unusedObjectSchema
   \<and> ''Unused'' \<notin> typesToPrune
        (defaultOptions \<lparr> skipPruning := Some (\<lambda>t. typeName t = ''Unused'') \<rparr>) unusedObjectSchema"
proof -
  let ?t = "GraphQLObjectType ''Unused'' [stringField ''bar''] []"
  let ?o = "defaultOptions \<lparr> skipPruning := Some (\<lambda>t. typeName t = ''Unused'') \<rparr>"
  have a: "''Unused'' \<in> typesToPrune defaultOptions unusedObjectSchema"
    by code_simp
  have "typeName ?t \<notin> typesToPrune ?o unusedObjectSchema"
    by (rule skipPruning_exempts_type [where p = "\<lambda>t. typeName t = ''Unused''"])
       (simp_all add: unusedObjectSchema_def)
  with a show ?thesis by simp
qed

text \<open>
  C10 (as amended). The record \<open>visitedTypes\<close> is shared by the two visiting functions, and
  in a marking pass a name passes the guard of at most one call: the names marked by
  \<^verbatim>\<open>visitOutputType\<close> and the names marked by \<^verbatim>\<open>visitInputType\<close> are disjoint, and together they
  are the names in \<open>visitedTypes\<close> at the end of the pass.
\<close>

theorem marked_output_and_input_names_disjoint:
  "outputNames (markedBy (markingTrace s)) \<inter> inputNames (markedBy (markingTrace s)) = {}
   \<and> distinct (map callName (markedBy (markingTrace s)))
   \<and> set (map callName (markedBy (markingTrace s))) = fst (visitTypesState (createPruningContext s))"
  using marked_names [of "rootCalls s @ directiveCalls s" "({}, flagTypes (createPruningContext s))"]
    distinct_names_disjoint [of "markedBy (markingTrace s)"]
  by (simp add: markingTrace_def visitTypesState_append)

theorem marked_output_and_input_names_disjoint_witness:
  "markedBy (markingTrace interfaceSchema)
     = [VisitOutputType ''Query'', VisitOutputType ''String'', VisitOutputType ''Node'',
        VisitOutputType ''User'']
   \<and> outputNames (markedBy (markingTrace interfaceSchema))
       \<inter> inputNames (markedBy (markingTrace interfaceSchema)) = {}"
proof -
  have "markedBy (markingTrace interfaceSchema)
     = [VisitOutputType ''Query'', VisitOutputType ''String'', VisitOutputType ''Node'',
        VisitOutputType ''User'']"
    by code_simp
  with marked_output_and_input_names_disjoint [of interfaceSchema] show ?thesis
    by simp
qed

text \<open>
  C10 as stated fails: the traversal does reach a name in both positions. In the
  graph below \<open>String\<close> is the type of a field and of an argument; \<^verbatim>\<open>visitOutputType\<close> is
  called on it and marks it, and \<^verbatim>\<open>visitInputType\<close> is called on it and returns at the guard.
\<close>

theorem name_reached_in_both_positions:
  "(VisitOutputType ''String'', True) \<in> set (markingTrace interfaceSchema)
   \<and> (VisitInputType ''String'', False) \<in> set (markingTrace interfaceSchema)
   \<and> ''String'' \<in> outputNames (map fst (markingTrace interfaceSchema))
                  \<inter> inputNames (map fst (markingTrace interfaceSchema))"
  by code_simp


end
